theory Spec2Isabelle
  imports Main "HOL-Library.Word"
begin

unbundle bit_operations_syntax

section \<open>Versions\<close>

text \<open>
  A Go function either returns or panics: \<open>Panic\<close> is the run-time panic, \<open>Return\<close> carries
  what the function returns together with the state it leaves.
\<close>

datatype 'a result = Panic | Return 'a

text \<open>
  A \<open>Revision\<close> is a Go string (\<open>convertToRevision\<close> returns \<open>""\<close> for it).
  \<open>UnpairedVersion\<close> is an interface whose implementations are declared outside the two
  source files; it is only ever used as a map key and compared for equality, so it is the
  type parameter \<open>'u\<close> throughout.
\<close>

type_synonym Revision = string

text \<open>
  Modelled from the spec: the declarations of \<open>PairedVersion\<close> and \<open>Version\<close> are missing from
  the sources. A paired version is an unpaired version together with the revision it
  resolves to, with the operations \<open>Unpair\<close> and \<open>Underlying\<close>; a version is a revision, a
  paired version or an unpaired version. \<open>VUnknown\<close> stands for a value of the interface type
  \<open>Version\<close> that is none of the three (\<open>nil\<close> among them): the \<open>default\<close> branch of the type
  switches in \<open>toRevision\<close> and \<open>toUnpaired\<close>.
\<close>

datatype 'u PairedVersion = Is (Unpair: 'u) (Underlying: Revision)

datatype 'u Version =
    VRevision Revision
  | VPaired "'u PairedVersion"
  | VUnpaired 'u
  | VUnknown

section \<open>The in-memory single-source cache\<close>

text \<open>
  \<open>singleSourceCacheMemory\<close> (the cache source file, lines 56 to 201): the four Go maps are
  partial functions; a \<open>nil\<close> slice and an
  empty slice are both the empty list. The analyzer, project info and package tree types are
  opaque to the cache (type parameters \<open>'an\<close>, \<open>'pi\<close>, \<open>'pt\<close>). The lock \<open>mut\<close> is
  modelled separately, in the section on the lock discipline.
\<close>

record ('an, 'pi, 'pt, 'u) singleSourceCacheMemory =
  infos :: "'an \<Rightarrow> (Revision \<Rightarrow> 'pi option) option"
  ptrees :: "Revision \<Rightarrow> 'pt option"
  vMap :: "'u \<Rightarrow> Revision option"
  rMap :: "Revision \<Rightarrow> 'u list option"

definition newMemoryCache :: "('an, 'pi, 'pt, 'u) singleSourceCacheMemory" where
  "newMemoryCache =
     \<lparr> infos = Map.empty, ptrees = Map.empty, vMap = Map.empty, rMap = Map.empty \<rparr>"

text \<open>
  \<open>if _, has = c.rMap[r]; !has { c.rMap[r] = nil }\<close>, the tail of both setters.
\<close>

definition ensureRevision ::
  "Revision \<Rightarrow> (Revision \<Rightarrow> 'u list option) \<Rightarrow> (Revision \<Rightarrow> 'u list option)" where
  "ensureRevision r m = (case m r of None \<Rightarrow> m(r \<mapsto> []) | Some _ \<Rightarrow> m)"

definition setProjectInfo ::
  "Revision \<Rightarrow> 'an \<Rightarrow> 'pi \<Rightarrow> ('an, 'pi, 'pt, 'u) singleSourceCacheMemory
     \<Rightarrow> ('an, 'pi, 'pt, 'u) singleSourceCacheMemory" where
  "setProjectInfo r an pi' c =
     (let inner = (case infos c an of None \<Rightarrow> Map.empty | Some m \<Rightarrow> m)
      in c\<lparr> infos := (infos c)(an \<mapsto> inner(r \<mapsto> pi')),
            rMap := ensureRevision r (rMap c) \<rparr>)"

definition getProjectInfo ::
  "Revision \<Rightarrow> 'an \<Rightarrow> ('an, 'pi, 'pt, 'u) singleSourceCacheMemory \<Rightarrow> 'pi option" where
  "getProjectInfo r an c = (case infos c an of None \<Rightarrow> None | Some inner \<Rightarrow> inner r)"

definition setPackageTree ::
  "Revision \<Rightarrow> 'pt \<Rightarrow> ('an, 'pi, 'pt, 'u) singleSourceCacheMemory
     \<Rightarrow> ('an, 'pi, 'pt, 'u) singleSourceCacheMemory" where
  "setPackageTree r ptree c =
     c\<lparr> ptrees := (ptrees c)(r \<mapsto> ptree), rMap := ensureRevision r (rMap c) \<rparr>"

definition getPackageTree ::
  "Revision \<Rightarrow> ('an, 'pi, 'pt, 'u) singleSourceCacheMemory \<Rightarrow> 'pt option" where
  "getPackageTree r c = ptrees c r"

text \<open>
  The flush of \<open>storeVersionMap\<close>: \<open>for r := range c.rMap { c.rMap[r] = nil }\<close> and
  \<open>c.vMap = make(...)\<close>.
\<close>

definition flushVersions ::
  "('an, 'pi, 'pt, 'u) singleSourceCacheMemory \<Rightarrow> ('an, 'pi, 'pt, 'u) singleSourceCacheMemory" where
  "flushVersions c =
     c\<lparr> rMap := (\<lambda>r. case rMap c r of None \<Rightarrow> None | Some _ \<Rightarrow> Some []),
        vMap := Map.empty \<rparr>"

text \<open>
  One iteration of the loop over \<open>versionList\<close>: \<open>c.vMap[u] = r\<close> and
  \<open>c.rMap[r] = append(c.rMap[r], u)\<close>; reading a missing key of \<open>rMap\<close> gives \<open>nil\<close>.
\<close>

definition storePair ::
  "('an, 'pi, 'pt, 'u) singleSourceCacheMemory \<Rightarrow> 'u PairedVersion
     \<Rightarrow> ('an, 'pi, 'pt, 'u) singleSourceCacheMemory" where
  "storePair c pv =
     (let u = Unpair pv; r = Underlying pv
      in c\<lparr> vMap := (vMap c)(u \<mapsto> r),
            rMap := (rMap c)(r \<mapsto> (case rMap c r of None \<Rightarrow> [] | Some us \<Rightarrow> us) @ [u]) \<rparr>)"

definition storeVersionMap ::
  "'u PairedVersion list \<Rightarrow> bool \<Rightarrow> ('an, 'pi, 'pt, 'u) singleSourceCacheMemory
     \<Rightarrow> ('an, 'pi, 'pt, 'u) singleSourceCacheMemory" where
  "storeVersionMap versionList flush c =
     foldl storePair (if flush then flushVersions c else c) versionList"

definition getVersionsFor ::
  "Revision \<Rightarrow> ('an, 'pi, 'pt, 'u) singleSourceCacheMemory \<Rightarrow> 'u list option" where
  "getVersionsFor r c = rMap c r"

definition getRevisionFor ::
  "'u \<Rightarrow> ('an, 'pi, 'pt, 'u) singleSourceCacheMemory \<Rightarrow> Revision option" where
  "getRevisionFor uv c = vMap c uv"

text \<open>
  The pair \<open>(r, has)\<close> of the Go functions is an option: \<open>None\<close> when \<open>has\<close> is false. The
  cases stand in the order of the type switches.
\<close>

fun toRevision ::
  "('an, 'pi, 'pt, 'u) singleSourceCacheMemory \<Rightarrow> 'u Version \<Rightarrow> Revision option result" where
  "toRevision c (VRevision t) = Return (Some t)"
| "toRevision c (VPaired t) = Return (Some (Underlying t))"
| "toRevision c (VUnpaired t) = Return (vMap c t)"
| "toRevision c VUnknown = Panic"

fun toUnpaired ::
  "('an, 'pi, 'pt, 'u) singleSourceCacheMemory \<Rightarrow> 'u Version \<Rightarrow> 'u option result" where
  "toUnpaired c (VUnpaired t) = Return (Some t)"
| "toUnpaired c (VPaired t) = Return (Some (Unpair t))"
| "toUnpaired c (VRevision t) =
     Return (case rMap c t of
        None \<Rightarrow> None
      | Some upv \<Rightarrow> (case upv of [] \<Rightarrow> None | u # _ \<Rightarrow> Some u))"
| "toUnpaired c VUnknown = Panic"

text \<open>
  The operations that change a cache, and a run of them from the empty cache: the
  reachable cache states are the values of \<open>runCache\<close>.
\<close>

datatype ('an, 'pi, 'pt, 'u) cacheOp =
    SetProjectInfo Revision 'an 'pi
  | SetPackageTree Revision 'pt
  | StoreVersionMap "'u PairedVersion list" bool

fun applyCacheOp ::
  "('an, 'pi, 'pt, 'u) singleSourceCacheMemory \<Rightarrow> ('an, 'pi, 'pt, 'u) cacheOp
     \<Rightarrow> ('an, 'pi, 'pt, 'u) singleSourceCacheMemory" where
  "applyCacheOp c (SetProjectInfo r an pi') = setProjectInfo r an pi' c"
| "applyCacheOp c (SetPackageTree r ptree) = setPackageTree r ptree c"
| "applyCacheOp c (StoreVersionMap versionList flush) = storeVersionMap versionList flush c"

definition runCache ::
  "('an, 'pi, 'pt, 'u) cacheOp list \<Rightarrow> ('an, 'pi, 'pt, 'u) singleSourceCacheMemory" where
  "runCache ops = foldl applyCacheOp newMemoryCache ops"

text \<open>
  The two invariants of the cache: every revision the cache has seen is a key of \<open>rMap\<close>, and
  every pairing in \<open>vMap\<close> is listed in \<open>rMap\<close>. \<open>inRMap c r u\<close> reads "u appears in the
  sequence \<open>rMap[r]\<close>".
\<close>

definition revisionsKnown :: "('an, 'pi, 'pt, 'u) singleSourceCacheMemory \<Rightarrow> bool" where
  "revisionsKnown c \<longleftrightarrow>
     (\<forall>r. ptrees c r \<noteq> None \<longrightarrow> rMap c r \<noteq> None)
     \<and> (\<forall>an inner r. infos c an = Some inner \<longrightarrow> inner r \<noteq> None \<longrightarrow> rMap c r \<noteq> None)
     \<and> (\<forall>u r. vMap c u = Some r \<longrightarrow> rMap c r \<noteq> None)"

definition pairingsListed :: "('an, 'pi, 'pt, 'u) singleSourceCacheMemory \<Rightarrow> bool" where
  "pairingsListed c \<longleftrightarrow>
     (\<forall>u r. vMap c u = Some r \<longrightarrow> (\<exists>us. rMap c r = Some us \<and> u \<in> set us))"

definition inRMap :: "('an, 'pi, 'pt, 'u) singleSourceCacheMemory \<Rightarrow> Revision \<Rightarrow> 'u \<Rightarrow> bool" where
  "inRMap c r u = (case rMap c r of None \<Rightarrow> False | Some us \<Rightarrow> u \<in> set us)"

fun isSetter :: "('an, 'pi, 'pt, 'u) cacheOp \<Rightarrow> bool" where
  "isSetter (SetProjectInfo r an p) = True"
| "isSetter (SetPackageTree r t) = True"
| "isSetter (StoreVersionMap l flush) = False"

section \<open>Concrete cache runs\<close>

text \<open>States and runs at which the theorems about the cache are evaluated.\<close>

definition flushScenario :: "(string, unit, unit, string) singleSourceCacheMemory" where
  "flushScenario =
     \<lparr> infos = Map.empty, ptrees = Map.empty,
       vMap = [''u1'' \<mapsto> ''r1'', ''u2'' \<mapsto> ''r1''],
       rMap = [''r1'' \<mapsto> [''u1'', ''u2''], ''r2'' \<mapsto> []] \<rparr>"

definition cacheRun :: "(string, unit, unit, string) cacheOp list" where
  "cacheRun =
     [SetProjectInfo ''r1'' ''analyzer'' (),
      StoreVersionMap [Is ''v0'' ''r0''] False,
      StoreVersionMap [Is ''v1'' ''r3'', Is ''v2'' ''r3''] True,
      SetPackageTree ''r2'' ()]"

definition movedBranch :: "(string, unit, unit, string) cacheOp list" where
  "movedBranch =
     [StoreVersionMap [Is ''master'' ''r1''] False, StoreVersionMap [Is ''master'' ''r2''] False]"

definition twiceListed :: "(string, unit, unit, string) cacheOp list" where
  "twiceListed = [StoreVersionMap [Is ''master'' ''r1'', Is ''master'' ''r2''] True]"

definition flushedList :: "string PairedVersion list" where
  "flushedList = [Is ''master'' ''r2'', Is ''v1.0'' ''r1'', Is ''stable'' ''r1'']"

section \<open>The call manager\<close>

text \<open>
  \<open>callType\<close> is a Go \<open>uint\<close> with three named values; \<open>callInfo\<close> is the key of a call. The
  field \<open>typ\<close> of \<open>callInfo\<close> is written \<open>typ'\<close>.

  The counts are Go \<open>int\<close>s and a \<open>time.Duration\<close> is an \<open>int64\<close> of nanoseconds: both are 64
  bit words, read as signed by \<open>sint\<close>, so that \<open>count++\<close>, \<open>count--\<close> and \<open>dur +=\<close> wrap around
  as they do in Go, and \<open>count > 1\<close> is the signed comparison. A \<open>time.Time\<close> is an instant, in
  nanoseconds; its range (64 bits of seconds) is far wider than that of a duration, and an
  instant is an integer here. \<open>timeSub t u\<close> is \<open>t.Sub(u)\<close> of the Go library: the difference
  of the two instants as a duration, and the largest or the smallest duration when the
  difference is beyond them.
\<close>

type_synonym callType = nat

definition ctHTTPMetadata :: callType where "ctHTTPMetadata = 0"
definition ctListVersions :: callType where "ctListVersions = 1"
definition ctGetManifestAndLock :: callType where "ctGetManifestAndLock = 2"

record callInfo =
  name :: string
  typ' :: callType

record timeCount =
  count :: "64 word"
  start :: int

record durCount =
  count :: "64 word"
  dur :: "64 word"

definition maxDuration :: int where "maxDuration = 2 ^ 63 - 1"
definition minDuration :: int where "minDuration = - (2 ^ 63)"

definition timeSub :: "int \<Rightarrow> int \<Rightarrow> 64 word" where
  "timeSub t u =
     (if maxDuration < t - u then word_of_int maxDuration
      else if t - u < minDuration then word_of_int minDuration
      else word_of_int (t - u))"

text \<open>
  A context is a handle: the manager's lifetime context, a caller's context, or the
  combination \<open>constext.Cons\<close> of two. What \<open>cm.ctx.Err()\<close> returns is the field \<open>ctxErr\<close> of the
  manager: \<open>None\<close> until the lifetime context is cancelled, then the cause. The mutex \<open>mu\<close>
  is held during the whole of \<open>run\<close> and of \<open>done\<close>, which are therefore atomic.
\<close>

datatype ctx = Lifetime | Caller nat | Cons ctx ctx

record 'e callManager =
  ctxErr :: "'e option"
  running :: "callInfo \<Rightarrow> timeCount option"
  ran :: "callType \<Rightarrow> durCount option"

definition newCallManager :: "'e callManager" where
  "newCallManager = \<lparr> ctxErr = None, running = Map.empty, ran = Map.empty \<rparr>"

text \<open>
  \<open>run\<close> (\<open>deducers.go\<close>, lines 66 to 85); the argument \<open>now\<close> is the value of
  \<open>time.Now()\<close>.
\<close>

definition run :: "int \<Rightarrow> callInfo \<Rightarrow> 'e callManager \<Rightarrow> ('e + ctx) \<times> 'e callManager" where
  "run now ci cm =
     (case ctxErr cm of
        Some e \<Rightarrow> (Inl e, cm)
      | None \<Rightarrow>
          (Inr Lifetime,
           (case running cm ci of
              Some existingInfo \<Rightarrow>
                cm\<lparr> running := (running cm)
                      (ci \<mapsto> existingInfo\<lparr> timeCount.count := timeCount.count existingInfo + 1 \<rparr>) \<rparr>
            | None \<Rightarrow>
                cm\<lparr> running := (running cm)(ci \<mapsto> \<lparr> timeCount.count = 1, start = now \<rparr>) \<rparr>)))"

text \<open>
  \<open>done\<close> (lines 87 to 109, written \<open>done'\<close>): a key that is not running is a panic. Reading a missing key of
  \<open>ran\<close> gives the zero \<open>durCount\<close>.
\<close>

definition done' :: "int \<Rightarrow> callInfo \<Rightarrow> 'e callManager \<Rightarrow> 'e callManager result" where
  "done' now ci cm =
     (case running cm ci of
        None \<Rightarrow> Panic
      | Some existingInfo \<Rightarrow>
          if 1 <s timeCount.count existingInfo
          then Return (cm\<lparr> running := (running cm)
                 (ci \<mapsto> existingInfo\<lparr> timeCount.count := timeCount.count existingInfo - 1 \<rparr>) \<rparr>)
          else
            (let durCnt = (case ran cm (typ' ci) of
                             None \<Rightarrow> \<lparr> durCount.count = 0, dur = 0 \<rparr>
                           | Some d \<Rightarrow> d);
                 durCnt = durCnt\<lparr> durCount.count := durCount.count durCnt + 1 \<rparr>;
                 durCnt = durCnt\<lparr> dur := dur durCnt + timeSub now (start existingInfo) \<rparr>
             in Return (cm\<lparr> ran := (ran cm)(typ' ci \<mapsto> durCnt),
                            running := (running cm)(ci := None) \<rparr>)))"

text \<open>
  \<open>setUpCall\<close> (lines 44 to 60) returns the combined context and the function to defer, which calls \<open>done\<close>
  for the key (and then the cancel function of the combined context, which touches no state
  of the manager); on an error of \<open>run\<close> it returns the error alone.
\<close>

definition setUpCall ::
  "ctx \<Rightarrow> string \<Rightarrow> callType \<Rightarrow> int \<Rightarrow> 'e callManager
     \<Rightarrow> ('e + ctx \<times> (int \<Rightarrow> 'e callManager \<Rightarrow> 'e callManager result)) \<times> 'e callManager" where
  "setUpCall inctx name' typ now cm =
     (let ci = \<lparr> name = name', typ' = typ \<rparr>
      in case run now ci cm of
           (Inl err, cm') \<Rightarrow> (Inl err, cm')
         | (Inr octx, cm') \<Rightarrow> (Inr (Cons inctx octx, \<lambda>now'. done' now' ci), cm'))"

text \<open>Two overlapping calls for one key, and a cancelled manager.\<close>

definition fetchKey :: callInfo where
  "fetchKey = \<lparr> name = ''fetch'', typ' = ctListVersions \<rparr>"

definition oneFetch :: "string callManager" where
  "oneFetch = snd (setUpCall (Caller 1) ''fetch'' ctListVersions 10 newCallManager)"

definition twoFetches :: "string callManager" where
  "twoFetches = snd (setUpCall (Caller 2) ''fetch'' ctListVersions 25 oneFetch)"

definition firstDone :: "string callManager" where
  "firstDone = (case done' 40 fetchKey twoFetches of Return cm \<Rightarrow> cm | Panic \<Rightarrow> twoFetches)"

definition cancelledManager :: "string callManager" where
  "cancelledManager = twoFetches\<lparr> ctxErr := Some ''context canceled'' \<rparr>"

text \<open>A manager whose one running key has the largest count, and one with a long call.\<close>

definition fullCount :: "string callManager" where
  "fullCount =
     \<lparr> ctxErr = None,
       running = [fetchKey \<mapsto> \<lparr> timeCount.count = 0x7FFFFFFFFFFFFFFF, start = 10 \<rparr>],
       ran = Map.empty \<rparr>"

definition lateDone :: "string callManager" where
  "lateDone =
     \<lparr> ctxErr = None,
       running = [fetchKey \<mapsto> \<lparr> timeCount.count = 1, start = - (2 ^ 62) \<rparr>],
       ran = [ctListVersions \<mapsto> \<lparr> durCount.count = 1, dur = 45 \<rparr>] \<rparr>"

section \<open>The lock discipline of the cache\<close>

text \<open>
  What each operation of \<open>singleSourceCacheMemory\<close> (the cache source file, lines 73 to 201)
  does with the lock \<open>mut\<close> and the four maps, in the order of its statements: \<open>Lock\<close> and \<open>Unlock\<close> are the calls \<open>c.mut.Lock()\<close> and
  \<open>c.mut.Unlock()\<close> (a deferred unlock is the last event), \<open>Access m\<close> is a statement that
  reads or writes the map \<open>m\<close> (a \<open>range\<close> loop over a map is one access, and so is \<open>len\<close>; a
  write to an inner map of \<open>infos\<close> is an access to \<open>infos\<close>). The branches taken depend on
  the cache and on the arguments; the panic of a type switch comes before any event.
\<close>

datatype cacheMap = Infos | Ptrees | VMap | RMap

datatype lockEvent = Lock | Unlock | Access cacheMap

datatype ('an, 'u) cacheCall =
    CallSetProjectInfo Revision 'an
  | CallGetProjectInfo Revision 'an
  | CallSetPackageTree Revision
  | CallGetPackageTree Revision
  | CallStoreVersionMap "'u PairedVersion list" bool
  | CallGetVersionsFor Revision
  | CallGetAllVersions
  | CallGetRevisionFor 'u
  | CallToRevision "'u Version"
  | CallToUnpaired "'u Version"

fun lockTrace ::
  "('an, 'pi, 'pt, 'u) singleSourceCacheMemory \<Rightarrow> ('an, 'u) cacheCall \<Rightarrow> lockEvent list" where
  "lockTrace c (CallSetProjectInfo r an) =
     [Lock, Access Infos]
     @ (if infos c an = None then [Access Infos] else [])
     @ [Access Infos, Access RMap]
     @ (if rMap c r = None then [Access RMap] else [])
     @ [Unlock]"
| "lockTrace c (CallGetProjectInfo r an) =
     [Lock, Access Infos]
     @ (if infos c an = None then [] else [Access Infos])
     @ [Unlock]"
| "lockTrace c (CallSetPackageTree r) =
     [Lock, Access Ptrees, Access RMap]
     @ (if rMap c r = None then [Access RMap] else [])
     @ [Unlock]"
| "lockTrace c (CallGetPackageTree r) = [Lock, Access Ptrees, Unlock]"
| "lockTrace c (CallStoreVersionMap versionList flush) =
     [Lock]
     @ (if flush then [Access RMap, Access VMap] else [])
     @ concat (map (\<lambda>v. [Access VMap, Access RMap, Access RMap]) versionList)
     @ [Unlock]"
| "lockTrace c (CallGetVersionsFor r) = [Lock, Access RMap, Unlock]"
| "lockTrace c CallGetAllVersions = [Access VMap, Access VMap]"
| "lockTrace c (CallGetRevisionFor uv) = [Lock, Access VMap, Unlock]"
| "lockTrace c (CallToRevision v) =
     (case v of VUnpaired t \<Rightarrow> [Lock, Access VMap, Unlock] | _ \<Rightarrow> [])"
| "lockTrace c (CallToUnpaired v) =
     (case v of VRevision t \<Rightarrow> [Lock, Access RMap, Unlock] | _ \<Rightarrow> [])"

text \<open>
  \<open>guarded held es\<close>: starting with the lock held or not, every access of \<open>es\<close> is made with
  the lock held, the lock is never taken twice, and it is free at the end.
\<close>

fun guarded :: "bool \<Rightarrow> lockEvent list \<Rightarrow> bool" where
  "guarded held [] = (\<not> held)"
| "guarded held (Lock # es) = (\<not> held \<and> guarded True es)"
| "guarded held (Unlock # es) = (held \<and> guarded False es)"
| "guarded held (Access m # es) = (held \<and> guarded held es)"

section \<open>The source gateway\<close>

text \<open>
  The source driver and the maybe-source are interfaces implemented outside the two source
  files. A driver call reads and writes the world outside the gateway (network, disk; the
  type parameter \<open>'w\<close>) and the cache of the gateway, which it shares; so each method takes
  the cache and the world and returns them with its result. Only the methods that \<open>require\<close>
  calls are modelled. \<open>try\<close> is written \<open>try'\<close>. The errors of the gateway are the driver's
  errors and the three it formats itself; \<open>'v\<close> is the type of versions.
\<close>

datatype sourceExistence = existsInCache | existsUpstream

datatype 'v error =
    DoesNotExistUpstream string
  | DoesNotExistInCache string
  | VersionDoesNotExist 'v
  | DriverError string

record ('c, 'w, 'v) source =
  checkExistence :: "sourceExistence \<Rightarrow> 'c \<Rightarrow> 'w \<Rightarrow> bool \<times> 'c \<times> 'w"
  listVersions :: "'c \<Rightarrow> 'w \<Rightarrow> 'v error option \<times> 'c \<times> 'w"
  syncLocal :: "'c \<Rightarrow> 'w \<Rightarrow> 'v error option \<times> 'c \<times> 'w"

record ('c, 'w, 'v) maybeSource =
  try' :: "string \<Rightarrow> 'c \<Rightarrow> 'w
            \<Rightarrow> (('c, 'w, 'v) source option \<times> string \<times> 'v error option) \<times> 'c \<times> 'w"

text \<open>
  \<open>sourceState\<close> is a \<open>uint32\<close> bit set. The gateway has the fields of the Go struct but the
  lock \<open>mu\<close> (every public operation holds it from start to end) and the call manager
  (\<open>require\<close> does not use it). \<open>src\<close> is \<open>nil\<close> until \<open>try\<close> has returned a driver; the cache
  is of an interface type in Go and a type parameter here.
\<close>

type_synonym sourceState = "32 word"

definition sourceIsSetUp :: sourceState where "sourceIsSetUp = 1"
definition sourceExistsUpstream :: sourceState where "sourceExistsUpstream = 2"
definition sourceExistsLocally :: sourceState where "sourceExistsLocally = 4"
definition sourceHasLatestVersionList :: sourceState where "sourceHasLatestVersionList = 8"
definition sourceHasLatestLocally :: sourceState where "sourceHasLatestLocally = 16"

record ('c, 'w, 'v) sourceGateway =
  cachedir :: string
  maybe :: "('c, 'w, 'v) maybeSource"
  srcState :: sourceState
  src :: "('c, 'w, 'v) source option"
  cache :: 'c
  url :: string

definition newSourceGateway ::
  "(('an, 'pi, 'pt, 'u) singleSourceCacheMemory, 'w, 'v) maybeSource \<Rightarrow> string
     \<Rightarrow> (('an, 'pi, 'pt, 'u) singleSourceCacheMemory, 'w, 'v) sourceGateway" where
  "newSourceGateway maybe' cachedir' =
     \<lparr> cachedir = cachedir', maybe = maybe', srcState = 0, src = None,
       cache = newMemoryCache, url = [] \<rparr>"

text \<open>
  The \<open>switch flag\<close> of \<open>require\<close> (\<open>deducers.go\<close>, lines 496 to 513): the acquisition step
  of one bit. It returns the error of
  the step (\<open>None\<close> for \<open>nil\<close>). \<open>try\<close> assigns \<open>src\<close> and \<open>url\<close> whatever it returns; a method
  call on a \<open>nil\<close> driver is a run-time panic; a flag that is none of the five has no case,
  so nothing is done and the error stays \<open>nil\<close>.
\<close>

definition acquire ::
  "sourceState \<Rightarrow> ('c, 'w, 'v) sourceGateway \<Rightarrow> 'w
     \<Rightarrow> ('v error option \<times> ('c, 'w, 'v) sourceGateway \<times> 'w) result" where
  "acquire flag sg w =
     (if flag = sourceIsSetUp then
        (case try' (maybe sg) (cachedir sg) (cache sg) w of
           ((s, u, err), c', w') \<Rightarrow> Return (err, sg\<lparr> src := s, url := u, cache := c' \<rparr>, w'))
      else if flag = sourceExistsUpstream then
        (case src sg of
           None \<Rightarrow> Panic
         | Some s \<Rightarrow>
             (case checkExistence s existsUpstream (cache sg) w of
                (ok, c', w') \<Rightarrow>
                  Return (if \<not> ok then Some (DoesNotExistUpstream (url sg)) else None,
                          sg\<lparr> cache := c' \<rparr>, w')))
      else if flag = sourceExistsLocally then
        (case src sg of
           None \<Rightarrow> Panic
         | Some s \<Rightarrow>
             (case checkExistence s existsInCache (cache sg) w of
                (ok, c', w') \<Rightarrow>
                  Return (if \<not> ok then Some (DoesNotExistInCache (url sg)) else None,
                          sg\<lparr> cache := c' \<rparr>, w')))
      else if flag = sourceHasLatestVersionList then
        (case src sg of
           None \<Rightarrow> Panic
         | Some s \<Rightarrow>
             (case listVersions s (cache sg) w of
                (err, c', w') \<Rightarrow> Return (err, sg\<lparr> cache := c' \<rparr>, w')))
      else if flag = sourceHasLatestLocally then
        (case src sg of
           None \<Rightarrow> Panic
         | Some s \<Rightarrow>
             (case syncLocal s (cache sg) w of
                (err, c', w') \<Rightarrow> Return (err, sg\<lparr> cache := c' \<rparr>, w')))
      else Return (None, sg, w))"

text \<open>
  The loop of \<open>require\<close> (lines 485 to 525): \<open>for i := uint(0); todo != 0; i++\<close>. The counter is a Go \<open>uint\<close> (64
  bits wide, wrapping around), the flag \<open>1 << i\<close> a \<open>uint32\<close>, which is 0 from \<open>i = 32\<close> on. The
  result is the pair \<open>(errState, err)\<close> with the gateway and the world as the call leaves
  them.
\<close>

definition requireMeasure :: "64 word \<Rightarrow> sourceState \<Rightarrow> nat" where
  "requireMeasure i todo =
     (if todo = 0 then 0
      else if unat i \<le> 32 \<and> take_bit (unat i) todo = 0 then 33 - unat i
      else 2 ^ 64 - unat i + 33)"

function requireLoop ::
  "64 word \<Rightarrow> sourceState \<Rightarrow> ('c, 'w, 'v) sourceGateway \<Rightarrow> 'w
     \<Rightarrow> ((sourceState \<times> 'v error option) \<times> ('c, 'w, 'v) sourceGateway \<times> 'w) result" where
  "requireLoop i todo sg w =
     (if todo = 0 then Return ((0, None), sg, w)
      else if todo AND push_bit (unat i) 1 \<noteq> 0 then
        (case acquire (push_bit (unat i) 1) sg w of
           Panic \<Rightarrow> Panic
         | Return (Some err, sg', w') \<Rightarrow> Return ((push_bit (unat i) 1, Some err), sg', w')
         | Return (None, sg', w') \<Rightarrow>
             requireLoop (i + 1) (todo - push_bit (unat i) 1)
               (sg'\<lparr> srcState := srcState sg' OR push_bit (unat i) 1 \<rparr>) w')
      else requireLoop (i + 1) todo sg w)"
  by pat_completeness auto

definition require ::
  "sourceState \<Rightarrow> ('c, 'w, 'v) sourceGateway \<Rightarrow> 'w
     \<Rightarrow> ((sourceState \<times> 'v error option) \<times> ('c, 'w, 'v) sourceGateway \<times> 'w) result" where
  "require wanted sg w = requireLoop 0 (NOT (srcState sg) AND wanted) sg w"

text \<open>
  The transition rule in the words of the specification, to compare \<open>require\<close> with: for
  each bit of a list, in the order of the list, perform the acquisition step; on success
  set the bit in \<open>srcState\<close> and go on; on failure return the bit and the error, with the bits
  set so far.
\<close>

fun requireSteps ::
  "nat list \<Rightarrow> ('c, 'w, 'v) sourceGateway \<Rightarrow> 'w
     \<Rightarrow> ((sourceState \<times> 'v error option) \<times> ('c, 'w, 'v) sourceGateway \<times> 'w) result" where
  "requireSteps [] sg w = Return ((0, None), sg, w)"
| "requireSteps (b # bs) sg w =
     (case acquire (push_bit b 1) sg w of
        Panic \<Rightarrow> Panic
      | Return (Some err, sg', w') \<Rightarrow> Return ((push_bit b 1, Some err), sg', w')
      | Return (None, sg', w') \<Rightarrow>
          requireSteps bs (sg'\<lparr> srcState := srcState sg' OR push_bit b 1 \<rparr>) w')"

text \<open>
  \<open>convertToRevision\<close> (lines 394 to 432), on the in-memory cache. The error of the Go function is the left
  summand, the revision the right one.
\<close>

definition convertToRevision ::
  "'u Version \<Rightarrow> (('an, 'pi, 'pt, 'u) singleSourceCacheMemory, 'w, 'u Version) sourceGateway \<Rightarrow> 'w
     \<Rightarrow> (('u Version error + Revision)
          \<times> (('an, 'pi, 'pt, 'u) singleSourceCacheMemory, 'w, 'u Version) sourceGateway \<times> 'w) result" where
  "convertToRevision v sg w =
     (case toRevision (cache sg) v of
        Panic \<Rightarrow> Panic
      | Return (Some r) \<Rightarrow> Return (Inr r, sg, w)
      | Return None \<Rightarrow>
          if srcState sg AND sourceHasLatestVersionList \<noteq> 0
          then Return (Inl (VersionDoesNotExist v), sg, w)
          else
            (case require (sourceIsSetUp OR sourceHasLatestVersionList) sg w of
               Panic \<Rightarrow> Panic
             | Return ((errState, Some err), sg', w') \<Rightarrow> Return (Inl err, sg', w')
             | Return ((errState, None), sg', w') \<Rightarrow>
                 (case toRevision (cache sg') v of
                    Panic \<Rightarrow> Panic
                  | Return None \<Rightarrow> Return (Inl (VersionDoesNotExist v), sg', w')
                  | Return (Some r) \<Rightarrow> Return (Inr r, sg', w'))))"

text \<open>
  A driver for concrete runs. Its world is the log of the driver calls made so far;
  \<open>listVersions\<close> either fails with the given error or stores the one version
  \<open>v1.2.3\<close> at revision \<open>r_abc\<close> in the cache.
\<close>

type_synonym exampleCache = "(string, unit, unit, string) singleSourceCacheMemory"

definition loggingSource ::
  "string Version error option \<Rightarrow> (exampleCache, string list, string Version) source" where
  "loggingSource listErr =
     \<lparr> checkExistence = (\<lambda>ex c w. (True, c, w @ [''checkExistence''])),
       listVersions = (\<lambda>c w.
         (listErr,
          (case listErr of None \<Rightarrow> storeVersionMap [Is ''v1.2.3'' ''r_abc''] True c | Some e \<Rightarrow> c),
          w @ [''listVersions''])),
       syncLocal = (\<lambda>c w. (None, c, w @ [''syncLocal''])) \<rparr>"

definition loggingMaybe ::
  "string Version error option \<Rightarrow> (exampleCache, string list, string Version) maybeSource" where
  "loggingMaybe listErr =
     \<lparr> try' = (\<lambda>dir c w.
         ((Some (loggingSource listErr), ''https://github.com/x/y'', None), c, w @ [''try''])) \<rparr>"

definition freshGateway ::
  "string Version error option \<Rightarrow> (exampleCache, string list, string Version) sourceGateway" where
  "freshGateway listErr = newSourceGateway (loggingMaybe listErr) ''/cache''"

section \<open>The source coordinator\<close>

text \<open>
  \<open>getSourceGatewayFor\<close> (\<open>deducers.go\<close>, lines 160 to 274) runs partly in the caller and
  partly in a goroutine, and several calls run at once. The model is a transition system whose steps are the sections of the
  function that run under a lock, each taken as one atomic step, and the two calls to the
  outside (the deducer, and the construction of a gateway with its \<open>sourceURL\<close>), whose
  outcome is part of the event. A gateway is identified by the number of its allocation:
  two gateways are the same instance if and only if the numbers are equal.

  The maps \<open>srcs\<close>, \<open>nameToURL\<close> and \<open>protoSrcs\<close> are the fields of the Go struct; the return
  channels in \<open>protoSrcs\<close> are identified with the calls that wait on them. \<open>calls\<close> maps
  each call to its normalized name and to where it stands; \<open>allocated\<close> counts the gateways
  constructed so far; \<open>panicked\<close> records that a \<open>panic\<close> was reached.
\<close>

datatype 'e phase =
    Spawned
  | Waiting
  | Deducing
  | Rechecking
  | Building
  | Installing nat string
  | Returned "'e + nat"

record 'e sourceCoordinator =
  srcs :: "string \<Rightarrow> nat option"
  nameToURL :: "string \<Rightarrow> string option"
  protoSrcs :: "string \<Rightarrow> nat list option"
  calls :: "nat \<Rightarrow> (string \<times> 'e phase) option"
  allocated :: nat
  panicked :: bool

definition newSourceCoordinator :: "'e sourceCoordinator" where
  "newSourceCoordinator =
     \<lparr> srcs = Map.empty, nameToURL = Map.empty, protoSrcs = Map.empty,
       calls = Map.empty, allocated = 0, panicked = False \<rparr>"

text \<open>
  \<open>doReturn\<close>, for the worker of the name \<open>N\<close>: every channel in \<open>protoSrcs[N]\<close> receives the
  result, and the entry is deleted, all under \<open>psrcmut\<close>.
\<close>

definition doReturn :: "string \<Rightarrow> 'e + nat \<Rightarrow> 'e sourceCoordinator \<Rightarrow> 'e sourceCoordinator" where
  "doReturn N res s =
     s\<lparr> calls := (\<lambda>q. if q \<in> set (case protoSrcs s N of None \<Rightarrow> [] | Some chans \<Rightarrow> chans)
                      then map_option (\<lambda>(n, ph). (n, Returned res)) (calls s q)
                      else calls s q),
        protoSrcs := (protoSrcs s)(N := None) \<rparr>"

text \<open>
  The events. \<open>Call p N\<close> (lines 161 to 177): a new call \<open>p\<close> for the normalized name \<open>N\<close>
  takes the fast path under the read lock and returns the gateway it finds, or spawns its
  goroutine and waits. \<open>Attach p\<close> (lines 182 to 192): under \<open>psrcmut\<close> the goroutine joins the
  waiters of a worker for its name, or becomes the worker. \<open>Deduced p r\<close> (lines 212 to 218):
  \<open>deduceRootPath\<close> has returned, with the error \<open>r\<close> or none. \<open>Recheck p\<close> (lines 225 to
  236): the second look at the maps under the read lock. \<open>Built p r\<close> (lines 238 to 254): a
  new gateway has been constructed and its \<open>sourceURL\<close> has returned the error or the URL
  \<open>r\<close>. \<open>Install p\<close> (lines 258 to 270): under the write lock, the name is mapped to the
  URL, and the gateway already at the URL, or else the new one, now stored there, is
  returned. An event that is not enabled leaves the state as it is, and so does every event
  after a panic.

  An event that ends in \<open>doReturn\<close> happens at the moment of the \<open>doReturn\<close>. The second look
  releases the read lock before its \<open>doReturn\<close>; what it has read is still there then, since
  the entries of the two maps are never changed once made (the stability part of the theorem
  on the coordinator).
\<close>

datatype 'e event =
    Call nat string
  | Attach nat
  | Deduced nat "'e option"
  | Recheck nat
  | Built nat "'e + string"
  | Install nat

fun fire :: "'e sourceCoordinator \<Rightarrow> 'e event \<Rightarrow> 'e sourceCoordinator" where
  "fire s (Call p N) =
     (case calls s p of
        Some c \<Rightarrow> s
      | None \<Rightarrow>
          (case nameToURL s N of
             None \<Rightarrow> s\<lparr> calls := (calls s)(p \<mapsto> (N, Spawned)) \<rparr>
           | Some U \<Rightarrow>
               (case srcs s U of
                  None \<Rightarrow> s\<lparr> calls := (calls s)(p \<mapsto> (N, Spawned)) \<rparr>
                | Some srcGate \<Rightarrow> s\<lparr> calls := (calls s)(p \<mapsto> (N, Returned (Inr srcGate))) \<rparr>)))"
| "fire s (Attach p) =
     (case calls s p of
        Some (N, Spawned) \<Rightarrow>
          (case protoSrcs s N of
             Some chans \<Rightarrow>
               s\<lparr> protoSrcs := (protoSrcs s)(N \<mapsto> chans @ [p]),
                  calls := (calls s)(p \<mapsto> (N, Waiting)) \<rparr>
           | None \<Rightarrow>
               s\<lparr> protoSrcs := (protoSrcs s)(N \<mapsto> [p]),
                  calls := (calls s)(p \<mapsto> (N, Deducing)) \<rparr>)
      | _ \<Rightarrow> s)"
| "fire s (Deduced p r) =
     (case calls s p of
        Some (N, Deducing) \<Rightarrow>
          (case r of
             Some err \<Rightarrow> doReturn N (Inl err) s
           | None \<Rightarrow> s\<lparr> calls := (calls s)(p \<mapsto> (N, Rechecking)) \<rparr>)
      | _ \<Rightarrow> s)"
| "fire s (Recheck p) =
     (case calls s p of
        Some (N, Rechecking) \<Rightarrow>
          (case nameToURL s N of
             Some U \<Rightarrow>
               (case srcs s U of
                  Some srcGate \<Rightarrow> doReturn N (Inr srcGate) s
                | None \<Rightarrow> s\<lparr> panicked := True \<rparr>)
           | None \<Rightarrow> s\<lparr> calls := (calls s)(p \<mapsto> (N, Building)) \<rparr>)
      | _ \<Rightarrow> s)"
| "fire s (Built p r) =
     (case calls s p of
        Some (N, Building) \<Rightarrow>
          (case r of
             Inl err \<Rightarrow> doReturn N (Inl err) (s\<lparr> allocated := allocated s + 1 \<rparr>)
           | Inr U \<Rightarrow>
               s\<lparr> allocated := allocated s + 1,
                  calls := (calls s)(p \<mapsto> (N, Installing (allocated s) U)) \<rparr>)
      | _ \<Rightarrow> s)"
| "fire s (Install p) =
     (case calls s p of
        Some (N, Installing srcGate U) \<Rightarrow>
          (case srcs s U of
             Some sa \<Rightarrow> doReturn N (Inr sa) (s\<lparr> nameToURL := (nameToURL s)(N \<mapsto> U) \<rparr>)
           | None \<Rightarrow>
               doReturn N (Inr srcGate)
                 (s\<lparr> nameToURL := (nameToURL s)(N \<mapsto> U), srcs := (srcs s)(U \<mapsto> srcGate) \<rparr>))
      | _ \<Rightarrow> s)"

definition step :: "'e sourceCoordinator \<Rightarrow> 'e event \<Rightarrow> 'e sourceCoordinator" where
  "step s ev = (if panicked s then s else fire s ev)"

definition runCoordinator :: "'e event list \<Rightarrow> 'e sourceCoordinator" where
  "runCoordinator evs = foldl step newSourceCoordinator evs"

text \<open>
  The invariant of the coordinator: no panic; a named URL has a gateway; a worker is the
  first of the waiters of its name; while a worker builds or installs, its name has no URL
  yet; a returned gateway is the one at the URL of the name; and the waiters of a name are
  calls for that name that have not returned.
\<close>

fun working :: "'e phase \<Rightarrow> bool" where
  "working Deducing = True"
| "working Rechecking = True"
| "working Building = True"
| "working (Installing g U) = True"
| "working ph = False"

fun constructing :: "'e phase \<Rightarrow> bool" where
  "constructing Building = True"
| "constructing (Installing g U) = True"
| "constructing ph = False"

fun returned :: "'e phase \<Rightarrow> bool" where
  "returned (Returned r) = True"
| "returned ph = False"

definition coordinatorInv :: "'e sourceCoordinator \<Rightarrow> bool" where
  "coordinatorInv s \<longleftrightarrow>
     \<not> panicked s
     \<and> (\<forall>N U. nameToURL s N = Some U \<longrightarrow> srcs s U \<noteq> None)
     \<and> (\<forall>p N ph. calls s p = Some (N, ph) \<longrightarrow> working ph \<longrightarrow>
           (\<exists>rest. protoSrcs s N = Some (p # rest)))
     \<and> (\<forall>p N ph. calls s p = Some (N, ph) \<longrightarrow> constructing ph \<longrightarrow> nameToURL s N = None)
     \<and> (\<forall>p N g. calls s p = Some (N, Returned (Inr g)) \<longrightarrow>
           (\<exists>U. nameToURL s N = Some U \<and> srcs s U = Some g))
     \<and> (\<forall>N chans q. protoSrcs s N = Some chans \<longrightarrow> q \<in> set chans \<longrightarrow>
           (\<exists>ph. calls s q = Some (N, ph) \<and> \<not> returned ph))"

text \<open>
  The invariant but for the calls of one name, which may be constructing although the name
  has its URL: the state in the middle of an install.
\<close>

definition invBut :: "string \<Rightarrow> 'e sourceCoordinator \<Rightarrow> bool" where
  "invBut M s \<longleftrightarrow>
     \<not> panicked s
     \<and> (\<forall>N U. nameToURL s N = Some U \<longrightarrow> srcs s U \<noteq> None)
     \<and> (\<forall>p N ph. calls s p = Some (N, ph) \<longrightarrow> working ph \<longrightarrow>
           (\<exists>rest. protoSrcs s N = Some (p # rest)))
     \<and> (\<forall>p N ph. calls s p = Some (N, ph) \<longrightarrow> constructing ph \<longrightarrow> N \<noteq> M \<longrightarrow>
           nameToURL s N = None)
     \<and> (\<forall>p N g. calls s p = Some (N, Returned (Inr g)) \<longrightarrow>
           (\<exists>U. nameToURL s N = Some U \<and> srcs s U = Some g))
     \<and> (\<forall>N chans q. protoSrcs s N = Some chans \<longrightarrow> q \<in> set chans \<longrightarrow>
           (\<exists>ph. calls s q = Some (N, ph) \<and> \<not> returned ph))"

text \<open>
  The gateways are fresh: a stored gateway and one being installed have been allocated; a
  gateway being installed is stored nowhere; and no two calls install the same gateway.
\<close>

definition freshInv :: "'e sourceCoordinator \<Rightarrow> bool" where
  "freshInv s \<longleftrightarrow>
     (\<forall>U g. srcs s U = Some g \<longrightarrow> g < allocated s)
     \<and> (\<forall>p N g U. calls s p = Some (N, Installing g U) \<longrightarrow>
           g < allocated s \<and> (\<forall>U'. srcs s U' \<noteq> Some g))
     \<and> (\<forall>p q N N' g U U'. calls s p = Some (N, Installing g U) \<longrightarrow>
           calls s q = Some (N', Installing g U') \<longrightarrow> p = q)"

text \<open>
  Two calls at once for two names of one source: both miss the fast path, both become
  workers (\<open>bothChecked\<close>, after the second look of each), both construct a gateway whose URL
  is the same (\<open>bothBuilt\<close>), and install one after the other (\<open>aliasingRun\<close>, after the
  first install).
\<close>

definition bothChecked :: "string event list" where
  "bothChecked =
     [Call 11 ''github.com/x/y'', Call 12 ''https://github.com/x/y'', Attach 11, Attach 12,
      Deduced 11 None, Deduced 12 None, Recheck 11, Recheck 12]"

definition bothBuilt :: "string event list" where
  "bothBuilt =
     [Call 11 ''github.com/x/y'', Call 12 ''https://github.com/x/y'', Attach 11, Attach 12,
      Deduced 11 None, Deduced 12 None, Recheck 11, Recheck 12,
      Built 11 (Inr ''https://github.com/x/y''), Built 12 (Inr ''https://github.com/x/y'')]"

definition aliasingRun :: "string event list" where
  "aliasingRun =
     [Call 11 ''github.com/x/y'', Call 12 ''https://github.com/x/y'', Attach 11, Attach 12,
      Deduced 11 None, Deduced 12 None, Recheck 11, Recheck 12,
      Built 11 (Inr ''https://github.com/x/y''), Built 12 (Inr ''https://github.com/x/y''),
      Install 11]"

text \<open>
  Two calls for one name, the second of which starts its goroutine only after the first has
  installed the gateway and returned: it becomes a worker, and its second look finds the
  gateway.
\<close>

definition lateAttach :: "string event list" where
  "lateAttach =
     [Call 11 ''github.com/x/y'', Call 13 ''github.com/x/y'', Attach 11, Deduced 11 None,
      Recheck 11, Built 11 (Inr ''https://github.com/x/y''), Install 11,
      Attach 13, Deduced 13 None]"
section \<open>Facts about the cache\<close>

lemma storePair_frame [simp]:
  "infos (storePair c pv) = infos c" "ptrees (storePair c pv) = ptrees c"
  by (simp_all add: storePair_def Let_def)

lemma foldl_storePair_frame [simp]:
  "infos (foldl storePair c l) = infos c" "ptrees (foldl storePair c l) = ptrees c"
  by (induction l arbitrary: c) simp_all

lemma storePair_vMap [simp]:
  "vMap (storePair c pv) = (vMap c)(Unpair pv \<mapsto> Underlying pv)"
  by (simp add: storePair_def Let_def)

lemma storePair_rMap [simp]:
  "rMap (storePair c pv) =
     (rMap c)(Underlying pv \<mapsto> (case rMap c (Underlying pv) of None \<Rightarrow> [] | Some us \<Rightarrow> us) @ [Unpair pv])"
  by (simp add: storePair_def Let_def)

lemma find_snoc:
  "find P (xs @ [x]) = (case find P xs of Some y \<Rightarrow> Some y | None \<Rightarrow> if P x then Some x else None)"
  by (induction xs) auto

lemma foldl_storePair_vMap:
  "vMap (foldl storePair c l) u =
     (case find (\<lambda>pv. Unpair pv = u) (rev l) of
        None \<Rightarrow> vMap c u
      | Some pv \<Rightarrow> Some (Underlying pv))"
proof (induction l arbitrary: c)
  case Nil
  show ?case by simp
next
  case (Cons pv l)
  show ?case
    by (simp add: Cons.IH find_snoc split: option.splits)
qed

lemma foldl_storePair_rMap:
  "rMap (foldl storePair c l) r =
     (if r \<in> Underlying ` set l
      then Some ((case rMap c r of None \<Rightarrow> [] | Some us \<Rightarrow> us)
                  @ map Unpair (filter (\<lambda>pv. Underlying pv = r) l))
      else rMap c r)"
proof (induction l arbitrary: c)
  case Nil
  show ?case by simp
next
  case (Cons pv l)
  show ?case
    by (auto simp: Cons.IH image_iff filter_empty_conv split: option.splits)
qed

lemma flushVersions_fields [simp]:
  "infos (flushVersions c) = infos c" "ptrees (flushVersions c) = ptrees c"
  "vMap (flushVersions c) = Map.empty"
  "rMap (flushVersions c) r = (case rMap c r of None \<Rightarrow> None | Some _ \<Rightarrow> Some [])"
  by (simp_all add: flushVersions_def)

lemma dom_flushVersions [simp]: "dom (rMap (flushVersions c)) = dom (rMap c)"
  by (auto simp: dom_def split: option.splits)

lemma ensureRevision_apply:
  "ensureRevision r m r' = (if r' = r then Some (case m r of None \<Rightarrow> [] | Some us \<Rightarrow> us) else m r')"
  by (simp add: ensureRevision_def split: option.splits)

lemma dom_ensureRevision [simp]: "dom (ensureRevision r m) = insert r (dom m)"
  by (auto simp: ensureRevision_def split: option.splits)

lemma setProjectInfo_fields [simp]:
  "ptrees (setProjectInfo r an p c) = ptrees c"
  "vMap (setProjectInfo r an p c) = vMap c"
  "rMap (setProjectInfo r an p c) = ensureRevision r (rMap c)"
  "infos (setProjectInfo r an p c) =
     (infos c)(an \<mapsto> (case infos c an of None \<Rightarrow> Map.empty | Some m \<Rightarrow> m)(r \<mapsto> p))"
  by (simp_all add: setProjectInfo_def Let_def)

lemma setPackageTree_fields [simp]:
  "ptrees (setPackageTree r t c) = (ptrees c)(r \<mapsto> t)"
  "vMap (setPackageTree r t c) = vMap c"
  "rMap (setPackageTree r t c) = ensureRevision r (rMap c)"
  "infos (setPackageTree r t c) = infos c"
  by (simp_all add: setPackageTree_def)

lemma revisionsKnownI:
  assumes "\<And>r t. ptrees c r = Some t \<Longrightarrow> rMap c r \<noteq> None"
    and "\<And>an inner r p. infos c an = Some inner \<Longrightarrow> inner r = Some p \<Longrightarrow> rMap c r \<noteq> None"
    and "\<And>u r. vMap c u = Some r \<Longrightarrow> rMap c r \<noteq> None"
  shows "revisionsKnown c"
  unfolding revisionsKnown_def using assms by blast

lemma revisionsKnown_ptrees: "revisionsKnown c \<Longrightarrow> ptrees c r = Some t \<Longrightarrow> rMap c r \<noteq> None"
  unfolding revisionsKnown_def by blast

lemma revisionsKnown_infos:
  "revisionsKnown c \<Longrightarrow> infos c an = Some inner \<Longrightarrow> inner r = Some p \<Longrightarrow> rMap c r \<noteq> None"
  unfolding revisionsKnown_def by blast

lemma revisionsKnown_vMap: "revisionsKnown c \<Longrightarrow> vMap c u = Some r \<Longrightarrow> rMap c r \<noteq> None"
  unfolding revisionsKnown_def by blast

lemma revisionsKnown_mono:
  assumes rk: "revisionsKnown c"
    and keys: "\<And>r. rMap c r \<noteq> None \<Longrightarrow> rMap c' r \<noteq> None"
    and pt: "\<And>r t. ptrees c' r = Some t \<Longrightarrow> ptrees c r = Some t \<or> rMap c' r \<noteq> None"
    and inf: "\<And>an inner r p. infos c' an = Some inner \<Longrightarrow> inner r = Some p \<Longrightarrow>
                (\<exists>inner0. infos c an = Some inner0 \<and> inner0 r = Some p) \<or> rMap c' r \<noteq> None"
    and vm: "\<And>u r. vMap c' u = Some r \<Longrightarrow> vMap c u = Some r \<or> rMap c' r \<noteq> None"
  shows "revisionsKnown c'"
proof (rule revisionsKnownI)
  fix r t assume "ptrees c' r = Some t"
  from pt[OF this] show "rMap c' r \<noteq> None"
    using revisionsKnown_ptrees[OF rk] keys by blast
next
  fix an inner r p assume "infos c' an = Some inner" "inner r = Some p"
  from inf[OF this] show "rMap c' r \<noteq> None"
    using revisionsKnown_infos[OF rk] keys by blast
next
  fix u r assume "vMap c' u = Some r"
  from vm[OF this] show "rMap c' r \<noteq> None"
    using revisionsKnown_vMap[OF rk] keys by blast
qed

lemma revisionsKnown_storePair: "revisionsKnown c \<Longrightarrow> revisionsKnown (storePair c pv)"
  by (erule revisionsKnown_mono) (simp_all split: if_splits)

lemma revisionsKnown_foldl: "revisionsKnown c \<Longrightarrow> revisionsKnown (foldl storePair c l)"
  by (induction l arbitrary: c) (simp_all add: revisionsKnown_storePair)

lemma revisionsKnown_flush: "revisionsKnown c \<Longrightarrow> revisionsKnown (flushVersions c)"
  by (erule revisionsKnown_mono) (simp_all split: option.splits)

lemma revisionsKnown_setProjectInfo: "revisionsKnown c \<Longrightarrow> revisionsKnown (setProjectInfo r an p c)"
  by (erule revisionsKnown_mono)
     (auto simp: ensureRevision_apply split: option.splits if_splits)

lemma revisionsKnown_setPackageTree: "revisionsKnown c \<Longrightarrow> revisionsKnown (setPackageTree r t c)"
  by (erule revisionsKnown_mono)
     (auto simp: ensureRevision_apply split: option.splits if_splits)

lemma revisionsKnown_apply: "revisionsKnown c \<Longrightarrow> revisionsKnown (applyCacheOp c op)"
  by (cases op)
     (simp_all add: revisionsKnown_setProjectInfo revisionsKnown_setPackageTree
        storeVersionMap_def revisionsKnown_foldl revisionsKnown_flush)

lemma revisionsKnown_foldl_ops:
  "revisionsKnown c \<Longrightarrow> revisionsKnown (foldl applyCacheOp c ops)"
  by (induction ops arbitrary: c) (simp_all add: revisionsKnown_apply)

lemma revisionsKnown_new: "revisionsKnown newMemoryCache"
  by (simp add: revisionsKnown_def newMemoryCache_def)

lemma pairingsListedD:
  "pairingsListed c \<Longrightarrow> vMap c u = Some r \<Longrightarrow> \<exists>us. rMap c r = Some us \<and> u \<in> set us"
  unfolding pairingsListed_def by blast

lemma pairingsListed_mono:
  assumes pl: "pairingsListed c"
    and keep: "\<And>r us. rMap c r = Some us \<Longrightarrow> \<exists>us'. rMap c' r = Some us' \<and> set us \<subseteq> set us'"
    and vm: "\<And>u r. vMap c' u = Some r \<Longrightarrow>
               vMap c u = Some r \<or> (\<exists>us. rMap c' r = Some us \<and> u \<in> set us)"
  shows "pairingsListed c'"
  unfolding pairingsListed_def
proof (intro allI impI)
  fix u r assume "vMap c' u = Some r"
  from vm[OF this] show "\<exists>us. rMap c' r = Some us \<and> u \<in> set us"
  proof
    assume "vMap c u = Some r"
    from pairingsListedD[OF pl this] obtain us where "rMap c r = Some us" "u \<in> set us" by blast
    with keep[of r us] show ?thesis by blast
  qed
qed

lemma pairingsListed_storePair: "pairingsListed c \<Longrightarrow> pairingsListed (storePair c pv)"
  by (erule pairingsListed_mono) (auto split: if_splits option.splits)

lemma pairingsListed_foldl: "pairingsListed c \<Longrightarrow> pairingsListed (foldl storePair c l)"
  by (induction l arbitrary: c) (simp_all add: pairingsListed_storePair)

lemma pairingsListed_flush: "pairingsListed (flushVersions c)"
  unfolding pairingsListed_def by simp

lemma pairingsListed_setProjectInfo: "pairingsListed c \<Longrightarrow> pairingsListed (setProjectInfo r an p c)"
  by (erule pairingsListed_mono) (auto simp: ensureRevision_apply)

lemma pairingsListed_setPackageTree: "pairingsListed c \<Longrightarrow> pairingsListed (setPackageTree r t c)"
  by (erule pairingsListed_mono) (auto simp: ensureRevision_apply)

lemma pairingsListed_apply: "pairingsListed c \<Longrightarrow> pairingsListed (applyCacheOp c op)"
  by (cases op)
     (simp_all add: pairingsListed_setProjectInfo pairingsListed_setPackageTree
        storeVersionMap_def pairingsListed_foldl pairingsListed_flush)

lemma pairingsListed_foldl_ops:
  "pairingsListed c \<Longrightarrow> pairingsListed (foldl applyCacheOp c ops)"
  by (induction ops arbitrary: c) (simp_all add: pairingsListed_apply)

lemma pairingsListed_new: "pairingsListed newMemoryCache"
  by (simp add: pairingsListed_def newMemoryCache_def)

text \<open>The setters keep the pairings; a store with a flush makes the maps inverses.\<close>

lemma inRMap_ensureRevision:
  "rMap c' = ensureRevision r0 (rMap c) \<Longrightarrow> inRMap c' r u = inRMap c r u"
  by (simp add: inRMap_def ensureRevision_apply split: option.splits)

lemma setter_keeps_pairings:
  "isSetter op \<Longrightarrow> vMap (applyCacheOp c op) = vMap c
     \<and> inRMap (applyCacheOp c op) r u = inRMap c r u"
  by (cases op) (simp_all add: inRMap_ensureRevision)

lemma setters_keep_pairings:
  "list_all isSetter later \<Longrightarrow> vMap (foldl applyCacheOp c later) = vMap c
     \<and> inRMap (foldl applyCacheOp c later) r u = inRMap c r u"
  by (induction later arbitrary: c) (simp_all add: setter_keeps_pairings)

lemma find_SomeD: "find P xs = Some x \<Longrightarrow> x \<in> set xs \<and> P x"
  by (induction xs) (auto split: if_splits)

lemma flush_store_inverse:
  assumes "\<forall>pv\<in>set l. \<forall>pv'\<in>set l. Unpair pv = Unpair pv' \<longrightarrow> Underlying pv = Underlying pv'"
  shows "vMap (storeVersionMap l True c) u = Some r \<longleftrightarrow> inRMap (storeVersionMap l True c) r u"
proof -
  have v: "vMap (storeVersionMap l True c) u
             = map_option Underlying (find (\<lambda>pv. Unpair pv = u) (rev l))"
    by (simp add: storeVersionMap_def foldl_storePair_vMap split: option.splits)
  have i: "inRMap (storeVersionMap l True c) r u \<longleftrightarrow> (\<exists>pv\<in>set l. Underlying pv = r \<and> Unpair pv = u)"
    by (auto simp: inRMap_def storeVersionMap_def foldl_storePair_rMap split: option.splits)
  show ?thesis
  proof
    assume "vMap (storeVersionMap l True c) u = Some r"
    with v have "map_option Underlying (find (\<lambda>pv. Unpair pv = u) (rev l)) = Some r"
      by simp
    then obtain pv where "find (\<lambda>pv. Unpair pv = u) (rev l) = Some pv" "Underlying pv = r"
      by blast
    then have "pv \<in> set l" "Unpair pv = u" "Underlying pv = r"
      by (auto dest: find_SomeD)
    with i show "inRMap (storeVersionMap l True c) r u" by blast
  next
    assume "inRMap (storeVersionMap l True c) r u"
    with i obtain pv where pv: "pv \<in> set l" "Underlying pv = r" "Unpair pv = u" by blast
    then have "find (\<lambda>pv. Unpair pv = u) (rev l) \<noteq> None"
      by (auto simp: find_None_iff)
    then obtain pv' where f: "find (\<lambda>pv. Unpair pv = u) (rev l) = Some pv'" by blast
    then have "pv' \<in> set l" "Unpair pv' = u"
      by (auto dest: find_SomeD)
    with assms pv have "Underlying pv' = r" by blast
    with v f show "vMap (storeVersionMap l True c) u = Some r" by simp
  qed
qed

text \<open>The fields of the concrete run.\<close>

lemma cacheRun_fields:
  "ptrees (runCache cacheRun) ''r2'' = Some ()"
  "infos (runCache cacheRun) ''analyzer'' = Some [''r1'' \<mapsto> ()]"
  "vMap (runCache cacheRun) ''v1'' = Some ''r3''"
  "vMap (runCache cacheRun) ''v2'' = Some ''r3''"
  "vMap (runCache cacheRun) ''v0'' = None"
  by (simp_all add: cacheRun_def runCache_def newMemoryCache_def storeVersionMap_def)

section \<open>The claims about the cache\<close>

subsection \<open>Storing a version list with a flush\<close>

text \<open>
  Claim C3. \<open>storeVersionMap list True\<close> is the loop over \<open>list\<close> run on the flushed cache;
  the flush keeps every key of \<open>rMap\<close>, maps each of them to the empty sequence and empties
  \<open>vMap\<close>. Afterwards \<open>vMap\<close> holds, for each unpaired version of the list, the revision of
  its last paired version in the list (and nothing else); \<open>rMap r\<close> is, for an old key or a
  listed revision \<open>r\<close>, the unpaired versions listed with \<open>r\<close>, in the order of the list; so
  the keys of \<open>rMap\<close> are the old keys and the listed revisions. \<open>infos\<close> and \<open>ptrees\<close> are
  untouched.
\<close>

theorem storeVersionMap_flush:
  "storeVersionMap l True c = foldl storePair (flushVersions c) l
   \<and> dom (rMap (flushVersions c)) = dom (rMap c)
   \<and> rMap (flushVersions c) r = (if r \<in> dom (rMap c) then Some [] else None)
   \<and> vMap (flushVersions c) = Map.empty
   \<and> vMap (storeVersionMap l True c) u
         = map_option Underlying (find (\<lambda>pv. Unpair pv = u) (rev l))
   \<and> dom (vMap (storeVersionMap l True c)) = Unpair ` set l
   \<and> rMap (storeVersionMap l True c) r
         = (if r \<in> dom (rMap c) \<union> Underlying ` set l
            then Some (map Unpair (filter (\<lambda>pv. Underlying pv = r) l))
            else None)
   \<and> dom (rMap (storeVersionMap l True c)) = dom (rMap c) \<union> Underlying ` set l
   \<and> infos (storeVersionMap l True c) = infos c
   \<and> ptrees (storeVersionMap l True c) = ptrees c"
proof -
  have 1: "storeVersionMap l True c = foldl storePair (flushVersions c) l"
    by (simp add: storeVersionMap_def)
  have 2: "rMap (flushVersions c) r = (if r \<in> dom (rMap c) then Some [] else None)"
    by (auto simp: dom_def split: option.splits)
  have 3: "vMap (storeVersionMap l True c) u
         = map_option Underlying (find (\<lambda>pv. Unpair pv = u) (rev l))" for u
    by (simp add: 1 foldl_storePair_vMap split: option.splits)
  have 4: "dom (vMap (storeVersionMap l True c)) = Unpair ` set l"
    by (auto simp: dom_def 3 find_None_iff image_iff)
  have 5: "rMap (storeVersionMap l True c) r
         = (if r \<in> dom (rMap c) \<union> Underlying ` set l
            then Some (map Unpair (filter (\<lambda>pv. Underlying pv = r) l))
            else None)" for r
    by (auto simp: 1 foldl_storePair_rMap filter_empty_conv split: option.splits)
  have 6: "dom (rMap (storeVersionMap l True c)) = dom (rMap c) \<union> Underlying ` set l"
    by (auto simp: 5 dom_def split: if_splits)
  have 7: "infos (storeVersionMap l True c) = infos c" "ptrees (storeVersionMap l True c) = ptrees c"
    by (simp_all add: 1)
  show ?thesis
    using 1 2 3 4 5 6 7 by simp
qed

theorem storeVersionMap_flush_witness:
  "vMap (storeVersionMap [Is ''u3'' ''r2''] True flushScenario) ''u3'' = Some ''r2''
   \<and> vMap (storeVersionMap [Is ''u3'' ''r2''] True flushScenario) ''u1'' = None
   \<and> dom (vMap (storeVersionMap [Is ''u3'' ''r2''] True flushScenario)) = {''u3''}
   \<and> rMap (storeVersionMap [Is ''u3'' ''r2''] True flushScenario) ''r2'' = Some [''u3'']
   \<and> rMap (storeVersionMap [Is ''u3'' ''r2''] True flushScenario) ''r1'' = Some []
   \<and> dom (rMap (storeVersionMap [Is ''u3'' ''r2''] True flushScenario)) = {''r1'', ''r2''}"
  using storeVersionMap_flush [of "[Is ''u3'' ''r2'']" flushScenario "''r2''" "''u3''"]
    storeVersionMap_flush [of "[Is ''u3'' ''r2'']" flushScenario "''r1''" "''u1''"]
  by (auto simp: flushScenario_def)

subsection \<open>Every revision of the cache is a key of the revision map\<close>

text \<open>
  Claim C5. In every cache state reached from the empty cache by \<open>setProjectInfo\<close>,
  \<open>setPackageTree\<close> and \<open>storeVersionMap\<close> (the value of \<open>runCache ops\<close> for a list \<open>ops\<close> of
  such calls), a revision that is a key of \<open>ptrees\<close>, an inner key of some \<open>infos an\<close>, or a
  value of \<open>vMap\<close> is a key of \<open>rMap\<close>.
\<close>

theorem rMap_knows_every_revision:
  "(ptrees (runCache ops) r \<noteq> None \<longrightarrow> rMap (runCache ops) r \<noteq> None)
   \<and> (infos (runCache ops) an = Some inner \<and> inner r \<noteq> None \<longrightarrow> rMap (runCache ops) r \<noteq> None)
   \<and> (vMap (runCache ops) u = Some r \<longrightarrow> rMap (runCache ops) r \<noteq> None)"
proof -
  have "revisionsKnown (runCache ops)"
    unfolding runCache_def by (rule revisionsKnown_foldl_ops [OF revisionsKnown_new])
  then show ?thesis
    unfolding revisionsKnown_def by blast
qed

theorem rMap_knows_every_revision_witness:
  "ptrees (runCache cacheRun) ''r2'' \<noteq> None
   \<and> infos (runCache cacheRun) ''analyzer'' = Some [''r1'' \<mapsto> ()]
   \<and> [''r1'' \<mapsto> ()] ''r1'' \<noteq> None
   \<and> vMap (runCache cacheRun) ''v1'' = Some ''r3''
   \<and> rMap (runCache cacheRun) ''r2'' \<noteq> None
   \<and> rMap (runCache cacheRun) ''r1'' \<noteq> None
   \<and> rMap (runCache cacheRun) ''r3'' \<noteq> None"
  using rMap_knows_every_revision [of cacheRun "''r2''" "''analyzer''" "[''r1'' \<mapsto> ()]" "''v1''"]
    rMap_knows_every_revision [of cacheRun "''r1''" "''analyzer''" "[''r1'' \<mapsto> ()]" "''v1''"]
    rMap_knows_every_revision [of cacheRun "''r3''" "''analyzer''" "[''r1'' \<mapsto> ()]" "''v1''"]
  by (simp add: cacheRun_fields)

subsection \<open>From an unpaired version to its revision and back\<close>

text \<open>
  Claim C8. In a reachable cache state, for an unpaired version \<open>u\<close> that \<open>vMap\<close> maps to
  \<open>r\<close>, \<open>toRevision u\<close> returns \<open>r\<close>, and \<open>toUnpaired\<close> of that revision returns an unpaired
  version, which is an element of the sequence \<open>rMap r\<close> (the first one, which need not be
  \<open>u\<close>).
\<close>

theorem toUnpaired_toRevision:
  assumes "vMap (runCache ops) u = Some r"
  shows "\<exists>u' us. toRevision (runCache ops) (VUnpaired u) = Return (Some r)
                 \<and> toUnpaired (runCache ops) (VRevision r) = Return (Some u')
                 \<and> rMap (runCache ops) r = Some us \<and> u' \<in> set us"
proof -
  have "pairingsListed (runCache ops)"
    unfolding runCache_def by (rule pairingsListed_foldl_ops [OF pairingsListed_new])
  from pairingsListedD [OF this assms] obtain us where us: "rMap (runCache ops) r = Some us" "u \<in> set us"
    by blast
  then obtain u' rest where "us = u' # rest" by (cases us) auto
  with us assms show ?thesis by simp
qed

theorem toUnpaired_toRevision_witness:
  "vMap (runCache cacheRun) ''v2'' = Some ''r3''
   \<and> (\<exists>u' us. toRevision (runCache cacheRun) (VUnpaired ''v2'') = Return (Some ''r3'')
               \<and> toUnpaired (runCache cacheRun) (VRevision ''r3'') = Return (Some u')
               \<and> rMap (runCache cacheRun) ''r3'' = Some us \<and> u' \<in> set us)"
  using toUnpaired_toRevision [of cacheRun "''v2''" "''r3''"]
  by (simp add: cacheRun_fields)

subsection \<open>The two version maps as inverses\<close>

text \<open>
  Claim C4 says that \<open>vMap u = r\<close> if and only if \<open>u\<close> is in \<open>rMap r\<close>, after the most recent
  \<open>storeVersionMap\<close>. It fails from right to left: after two stores without a flush in which
  a branch has moved from \<open>r1\<close> to \<open>r2\<close>, and after one store with a flush whose list names
  the branch twice, the branch is still listed under \<open>r1\<close> while \<open>vMap\<close> maps it to \<open>r2\<close>.
\<close>

theorem mutual_inverse_counterexample:
  "\<not> (vMap (runCache movedBranch) ''master'' = Some ''r1''
        \<longleftrightarrow> inRMap (runCache movedBranch) ''r1'' ''master'')
   \<and> \<not> (vMap (runCache twiceListed) ''master'' = Some ''r1''
        \<longleftrightarrow> inRMap (runCache twiceListed) ''r1'' ''master'')"
  by (simp add: movedBranch_def twiceListed_def runCache_def newMemoryCache_def
        storeVersionMap_def inRMap_def)

text \<open>
  Claim C4, amended. In every reachable cache state \<open>vMap u = r\<close> implies that \<open>u\<close> is in
  \<open>rMap r\<close>. The converse holds as well after a \<open>storeVersionMap l True\<close> whose list pairs no
  unpaired version with two revisions, in any cache, and still after any later calls of
  \<open>setProjectInfo\<close> and \<open>setPackageTree\<close>.
\<close>

theorem pairings_listed_and_inverse_after_flush:
  "(vMap (runCache ops) u = Some r \<longrightarrow> inRMap (runCache ops) r u)
   \<and> (list_all isSetter later
        \<and> (\<forall>pv\<in>set l. \<forall>pv'\<in>set l. Unpair pv = Unpair pv' \<longrightarrow> Underlying pv = Underlying pv')
      \<longrightarrow> (vMap (foldl applyCacheOp (storeVersionMap l True c) later) u = Some r
            \<longleftrightarrow> inRMap (foldl applyCacheOp (storeVersionMap l True c) later) r u))"
proof -
  have "pairingsListed (runCache ops)"
    unfolding runCache_def by (rule pairingsListed_foldl_ops [OF pairingsListed_new])
  then have 1: "vMap (runCache ops) u = Some r \<longrightarrow> inRMap (runCache ops) r u"
    by (auto simp: inRMap_def dest: pairingsListedD)
  have 2: "vMap (foldl applyCacheOp (storeVersionMap l True c) later) u = Some r
            \<longleftrightarrow> inRMap (foldl applyCacheOp (storeVersionMap l True c) later) r u"
    if s: "list_all isSetter later"
      and f: "\<forall>pv\<in>set l. \<forall>pv'\<in>set l. Unpair pv = Unpair pv' \<longrightarrow> Underlying pv = Underlying pv'"
    using setters_keep_pairings [OF s, of "storeVersionMap l True c" r u]
      flush_store_inverse [OF f, of c u r]
    by simp
  from 1 2 show ?thesis by blast
qed

theorem pairings_listed_and_inverse_after_flush_witness:
  "vMap (runCache movedBranch) ''master'' = Some ''r2''
   \<and> inRMap (runCache movedBranch) ''r2'' ''master''
   \<and> list_all isSetter [SetPackageTree ''r3'' ()]
   \<and> list_all (\<lambda>pv. list_all (\<lambda>pv'. Unpair pv \<noteq> Unpair pv' \<or> Underlying pv = Underlying pv') flushedList) flushedList
   \<and> (vMap (foldl applyCacheOp (storeVersionMap flushedList True (runCache movedBranch))
               [SetPackageTree ''r3'' ()]) ''stable'' = Some ''r1''
        \<longleftrightarrow> inRMap (foldl applyCacheOp (storeVersionMap flushedList True (runCache movedBranch))
               [SetPackageTree ''r3'' ()]) ''r1'' ''stable'')
   \<and> inRMap (foldl applyCacheOp (storeVersionMap flushedList True (runCache movedBranch))
               [SetPackageTree ''r3'' ()]) ''r1'' ''stable''
   \<and> \<not> inRMap (foldl applyCacheOp (storeVersionMap flushedList True (runCache movedBranch))
               [SetPackageTree ''r3'' ()]) ''r1'' ''master''"
  using pairings_listed_and_inverse_after_flush
          [of movedBranch "''master''" "''r2''" "[SetPackageTree ''r3'' ()]" flushedList "runCache movedBranch"]
     pairings_listed_and_inverse_after_flush
          [of movedBranch "''stable''" "''r1''" "[SetPackageTree ''r3'' ()]" flushedList "runCache movedBranch"]
  by (simp add: movedBranch_def flushedList_def runCache_def newMemoryCache_def
        storeVersionMap_def inRMap_def ensureRevision_def)

section \<open>The claims about the call manager\<close>

subsection \<open>Counting duplicate calls\<close>

text \<open>Reading the 64 bit counts and durations as integers.\<close>

lemma sint_succ64: "sint (c :: 64 word) < 2 ^ 63 - 1 \<Longrightarrow> sint (c + 1) = sint c + 1"
proof -
  assume a: "sint c < 2 ^ 63 - 1"
  have "- (2 ^ 63) \<le> sint c" using sint_ge [of c] by simp
  with a show ?thesis
    by (simp add: sint_word_add signed_take_bit_int_eq_self)
qed

lemma sint_pred64: "1 <s (c :: 64 word) \<Longrightarrow> sint (c - 1) = sint c - 1"
proof -
  assume "1 <s c"
  then have a: "1 < sint c" by (simp add: word_sless_alt)
  have "sint c < 2 ^ 63" using sint_lt [of c] by simp
  with a show ?thesis
    by (simp add: sint_word_diff signed_take_bit_int_eq_self)
qed

lemma sint_add64:
  "- (2 ^ 63) \<le> sint (a :: 64 word) + sint b \<Longrightarrow> sint a + sint b < 2 ^ 63 \<Longrightarrow>
     sint (a + b) = sint a + sint b"
  by (simp add: sint_word_add signed_take_bit_int_eq_self)

lemma sint_of_int64:
  "- (2 ^ 63) \<le> k \<Longrightarrow> k < 2 ^ 63 \<Longrightarrow> sint (word_of_int k :: 64 word) = k"
  by (simp add: sint_sbintrunc' signed_take_bit_int_eq_self)

lemma sint_timeSub_sat:
  "sint (timeSub t u) = (if maxDuration < t - u then maxDuration
                          else if t - u < minDuration then minDuration else t - u)"
proof -
  have "sint (word_of_int (t - u) :: 64 word) = t - u"
    if "\<not> maxDuration < t - u" "\<not> t - u < minDuration"
    by (rule sint_of_int64) (use that in \<open>simp_all add: maxDuration_def minDuration_def\<close>)
  moreover have "sint (word_of_int maxDuration :: 64 word) = maxDuration"
    by (rule sint_of_int64) (simp_all add: maxDuration_def)
  moreover have "sint (word_of_int minDuration :: 64 word) = minDuration"
    by (rule sint_of_int64) (simp_all add: minDuration_def)
  ultimately show ?thesis
    unfolding timeSub_def by presburger
qed

text \<open>
  Claim C6. For every call key \<open>ci\<close>: a \<open>run\<close> that registers (the lifetime context is not
  cancelled) a key already in \<open>running\<close> adds one to its count and keeps its start, and
  changes nothing else; a \<open>done\<close> at a count above one only takes one from the count; and the
  \<open>done\<close> at a count that is not above one, at count one in particular, removes the key from
  \<open>running\<close>, adds one to the count of \<open>ran\<close> for the type of the key and adds the elapsed
  time \<open>now.Sub(start)\<close> to its duration (from the zero entry when the type has none yet).
  The additions are those of Go: on 64 bit words. Read as integers, the count goes up by one
  unless it is the largest \<open>int\<close>, and down by one; the elapsed time is \<open>now - start\<close> unless
  that is beyond the largest or smallest duration, which then stands for it; and the
  duration goes up by the elapsed time unless the sum leaves the range of \<open>int64\<close>.
\<close>

theorem callManager_counts:
  "(ctxErr cm = None \<and> running cm ci = Some tc \<longrightarrow>
      run now ci cm =
        (Inr Lifetime,
         cm\<lparr> running := (running cm)(ci \<mapsto> \<lparr> timeCount.count = timeCount.count tc + 1, start = start tc \<rparr>) \<rparr>)
      \<and> (sint (timeCount.count tc) < 2 ^ 63 - 1 \<longrightarrow>
            sint (timeCount.count tc + 1) = sint (timeCount.count tc) + 1))
   \<and> (running cm ci = Some tc \<and> 1 <s timeCount.count tc \<longrightarrow>
      done' now ci cm =
        Return (cm\<lparr> running := (running cm)(ci \<mapsto> \<lparr> timeCount.count = timeCount.count tc - 1, start = start tc \<rparr>) \<rparr>)
      \<and> sint (timeCount.count tc - 1) = sint (timeCount.count tc) - 1)
   \<and> (running cm ci = Some tc \<and> \<not> 1 <s timeCount.count tc \<and> ran cm (typ' ci) = Some dc \<longrightarrow>
      done' now ci cm =
        Return (cm\<lparr> ran := (ran cm)(typ' ci \<mapsto>
                          \<lparr> durCount.count = durCount.count dc + 1,
                            dur = dur dc + timeSub now (start tc) \<rparr>),
                    running := (running cm)(ci := None) \<rparr>)
      \<and> (sint (durCount.count dc) < 2 ^ 63 - 1 \<longrightarrow>
            sint (durCount.count dc + 1) = sint (durCount.count dc) + 1)
      \<and> (- (2 ^ 63) \<le> sint (dur dc) + sint (timeSub now (start tc))
           \<and> sint (dur dc) + sint (timeSub now (start tc)) < 2 ^ 63 \<longrightarrow>
            sint (dur dc + timeSub now (start tc)) = sint (dur dc) + sint (timeSub now (start tc))))
   \<and> (running cm ci = Some tc \<and> \<not> 1 <s timeCount.count tc \<and> ran cm (typ' ci) = None \<longrightarrow>
      done' now ci cm =
        Return (cm\<lparr> ran := (ran cm)(typ' ci \<mapsto> \<lparr> durCount.count = 1, dur = timeSub now (start tc) \<rparr>),
                    running := (running cm)(ci := None) \<rparr>))
   \<and> sint (timeSub now (start tc))
        = (if maxDuration < now - start tc then maxDuration
           else if now - start tc < minDuration then minDuration
           else now - start tc)"
proof -
  have 1: "run now ci cm =
        (Inr Lifetime,
         cm\<lparr> running := (running cm)(ci \<mapsto> \<lparr> timeCount.count = timeCount.count tc + 1, start = start tc \<rparr>) \<rparr>)"
    if "ctxErr cm = None" "running cm ci = Some tc"
    using that by (cases tc) (simp add: run_def)
  have 2: "done' now ci cm =
        Return (cm\<lparr> running := (running cm)(ci \<mapsto> \<lparr> timeCount.count = timeCount.count tc - 1, start = start tc \<rparr>) \<rparr>)"
    if "running cm ci = Some tc" "1 <s timeCount.count tc"
    using that by (cases tc) (simp add: done'_def)
  have 3: "done' now ci cm =
        Return (cm\<lparr> ran := (ran cm)(typ' ci \<mapsto>
                          \<lparr> durCount.count = durCount.count dc + 1,
                            dur = dur dc + timeSub now (start tc) \<rparr>),
                    running := (running cm)(ci := None) \<rparr>)"
    if "running cm ci = Some tc" "\<not> 1 <s timeCount.count tc" "ran cm (typ' ci) = Some dc"
    using that by (cases tc; cases dc) (simp add: done'_def Let_def)
  have 4: "done' now ci cm =
        Return (cm\<lparr> ran := (ran cm)(typ' ci \<mapsto> \<lparr> durCount.count = 1, dur = timeSub now (start tc) \<rparr>),
                    running := (running cm)(ci := None) \<rparr>)"
    if "running cm ci = Some tc" "\<not> 1 <s timeCount.count tc" "ran cm (typ' ci) = None"
    using that by (cases tc) (simp add: done'_def Let_def)
  from 1 2 3 4 sint_succ64 [of "timeCount.count tc"] sint_pred64 [of "timeCount.count tc"]
    sint_succ64 [of "durCount.count dc"] sint_add64 [of "dur dc" "timeSub now (start tc)"]
    sint_timeSub_sat [of now "start tc"]
  show ?thesis by blast
qed


text \<open>The runs of the two overlapping calls, evaluated.\<close>

lemma oneFetch_eq:
  "oneFetch = \<lparr> ctxErr = None, running = [fetchKey \<mapsto> \<lparr> timeCount.count = 1, start = 10 \<rparr>],
                ran = Map.empty \<rparr>"
  by (simp add: oneFetch_def fetchKey_def setUpCall_def run_def newCallManager_def Let_def)

lemma twoFetches_eq:
  "twoFetches = \<lparr> ctxErr = None, running = [fetchKey \<mapsto> \<lparr> timeCount.count = 2, start = 10 \<rparr>],
                  ran = Map.empty \<rparr>"
  by (simp add: twoFetches_def oneFetch_eq fetchKey_def setUpCall_def run_def Let_def)

lemma firstDone_eq:
  "firstDone = \<lparr> ctxErr = None, running = [fetchKey \<mapsto> \<lparr> timeCount.count = 1, start = 10 \<rparr>],
                 ran = Map.empty \<rparr>"
  by (simp add: firstDone_def twoFetches_eq done'_def word_sless_alt)

theorem callManager_counts_witness:
  "ctxErr oneFetch = None
   \<and> running oneFetch fetchKey = Some \<lparr> timeCount.count = 1, start = 10 \<rparr>
   \<and> snd (run 25 fetchKey oneFetch) = twoFetches
   \<and> running twoFetches fetchKey = Some \<lparr> timeCount.count = 2, start = 10 \<rparr>
   \<and> 1 <s (2 :: 64 word)
   \<and> done' 40 fetchKey twoFetches = Return firstDone
   \<and> running firstDone fetchKey = Some \<lparr> timeCount.count = 1, start = 10 \<rparr>
   \<and> ran firstDone ctListVersions = None
   \<and> done' 55 fetchKey firstDone
        = Return \<lparr> ctxErr = None, running = Map.empty,
                   ran = [ctListVersions \<mapsto> \<lparr> durCount.count = 1, dur = 45 \<rparr>] \<rparr>
   \<and> done' 70 fetchKey
         \<lparr> ctxErr = (None :: string option), running = [fetchKey \<mapsto> \<lparr> timeCount.count = 1, start = 60 \<rparr>],
           ran = [ctListVersions \<mapsto> \<lparr> durCount.count = 1, dur = 45 \<rparr>] \<rparr>
        = Return \<lparr> ctxErr = None, running = Map.empty,
                   ran = [ctListVersions \<mapsto> \<lparr> durCount.count = 2, dur = 55 \<rparr>] \<rparr>
   \<and> running fullCount fetchKey = Some \<lparr> timeCount.count = 0x7FFFFFFFFFFFFFFF, start = 10 \<rparr>
   \<and> running (snd (run 25 fetchKey fullCount)) fetchKey
        = Some \<lparr> timeCount.count = 0x8000000000000000, start = 10 \<rparr>
   \<and> sint (0x8000000000000000 :: 64 word) = - (2 ^ 63)
   \<and> running lateDone fetchKey = Some \<lparr> timeCount.count = 1, start = - (2 ^ 62) \<rparr>
   \<and> ran lateDone ctListVersions = Some \<lparr> durCount.count = 1, dur = 45 \<rparr>
   \<and> sint (timeSub (2 ^ 63) (- (2 ^ 62))) = 2 ^ 63 - 1
   \<and> done' (2 ^ 63) fetchKey lateDone
        = Return \<lparr> ctxErr = None, running = Map.empty,
                   ran = [ctListVersions \<mapsto> \<lparr> durCount.count = 2, dur = 0x800000000000002C \<rparr>] \<rparr>"
proof -
  note a = callManager_counts [where cm = oneFetch and ci = fetchKey and now = 25
          and tc = "\<lparr> timeCount.count = 1, start = 10 \<rparr>"]
  note b = callManager_counts [where cm = twoFetches and ci = fetchKey and now = 40
          and tc = "\<lparr> timeCount.count = 2, start = 10 \<rparr>"]
  note c = callManager_counts [where cm = firstDone and ci = fetchKey and now = 55
          and tc = "\<lparr> timeCount.count = 1, start = 10 \<rparr>"]
  note d = callManager_counts [where cm = "\<lparr> ctxErr = (None :: string option),
             running = [fetchKey \<mapsto> \<lparr> timeCount.count = 1, start = 60 \<rparr>],
             ran = [ctListVersions \<mapsto> \<lparr> durCount.count = 1, dur = 45 \<rparr>] \<rparr>"
          and ci = fetchKey and now = 70
          and tc = "\<lparr> timeCount.count = 1, start = 60 \<rparr>"
          and dc = "\<lparr> durCount.count = 1, dur = 45 \<rparr>"]
  note e = callManager_counts [where cm = fullCount and ci = fetchKey and now = 25
          and tc = "\<lparr> timeCount.count = 0x7FFFFFFFFFFFFFFF, start = 10 \<rparr>"]
  note f = callManager_counts [where cm = lateDone and ci = fetchKey and now = "2 ^ 63"
          and tc = "\<lparr> timeCount.count = 1, start = - (2 ^ 62) \<rparr>"
          and dc = "\<lparr> durCount.count = 1, dur = 45 \<rparr>"]
  from a b c d e f show ?thesis
    by (simp add: oneFetch_eq twoFetches_eq firstDone_eq fullCount_def lateDone_def fetchKey_def
          timeSub_def word_sless_alt maxDuration_def minDuration_def)
qed

subsection \<open>Registering under a cancelled lifetime context\<close>

text \<open>
  Claim C10. When the lifetime context is already cancelled, \<open>run\<close> and \<open>setUpCall\<close> return
  its error and the manager they leave is the manager they were given: \<open>running\<close> and \<open>ran\<close>
  are unchanged. Otherwise both succeed and the key is in \<open>running\<close>: registration records
  the call or changes nothing.
\<close>

theorem run_cancelled_changes_nothing:
  "(ctxErr cm = Some e \<longrightarrow>
       run now ci cm = (Inl e, cm) \<and> setUpCall inctx nm ty now cm = (Inl e, cm))
   \<and> (ctxErr cm = None \<longrightarrow>
       fst (run now ci cm) = Inr Lifetime \<and> running (snd (run now ci cm)) ci \<noteq> None
       \<and> fst (setUpCall inctx nm ty now cm)
            = Inr (Cons inctx Lifetime, \<lambda>now'. done' now' \<lparr> name = nm, typ' = ty \<rparr>)
       \<and> running (snd (setUpCall inctx nm ty now cm)) \<lparr> name = nm, typ' = ty \<rparr> \<noteq> None)"
  by (simp add: run_def setUpCall_def Let_def split: option.splits)


lemma cancelledManager_eq:
  "cancelledManager = \<lparr> ctxErr = Some ''context canceled'',
      running = [fetchKey \<mapsto> \<lparr> timeCount.count = 2, start = 10 \<rparr>], ran = Map.empty \<rparr>"
  by (simp add: cancelledManager_def twoFetches_eq)

theorem run_cancelled_changes_nothing_witness:
  "ctxErr cancelledManager = Some ''context canceled''
   \<and> run 30 fetchKey cancelledManager = (Inl ''context canceled'', cancelledManager)
   \<and> setUpCall (Caller 3) ''fetch'' ctListVersions 30 cancelledManager
        = (Inl ''context canceled'', cancelledManager)
   \<and> ctxErr oneFetch = None
   \<and> fst (run 25 fetchKey oneFetch) = Inr Lifetime
   \<and> running (snd (run 25 fetchKey oneFetch)) fetchKey \<noteq> None"
  using run_cancelled_changes_nothing [where cm = cancelledManager and e = "''context canceled''"
          and now = 30 and ci = fetchKey and inctx = "Caller 3" and nm = "''fetch''"
          and ty = ctListVersions]
    run_cancelled_changes_nothing [where cm = oneFetch and now = 25 and ci = fetchKey]
  by (simp add: cancelledManager_eq oneFetch_eq)

section \<open>The claim about the lock of the cache\<close>

lemma guarded_store_loop:
  "guarded True (concat (map (\<lambda>v. [Access VMap, Access RMap, Access RMap]) l) @ [Unlock])"
  by (induction l) simp_all

lemma guarded_but_getAllVersions:
  "call \<noteq> CallGetAllVersions \<Longrightarrow> guarded False (lockTrace c call)"
  by (cases call) (simp_all add: guarded_store_loop split: Version.splits)

text \<open>
  Claim C9 says that every operation of the cache takes the lock around its accesses to the
  maps. All operations but one do; \<open>getAllVersions\<close> reads \<open>vMap\<close> (its length, then its
  entries) without ever taking the lock, here in the cache of the flush scenario.
\<close>

theorem getAllVersions_takes_no_lock:
  "lockTrace flushScenario CallGetAllVersions = [Access VMap, Access VMap]
   \<and> \<not> guarded False (lockTrace flushScenario CallGetAllVersions)
   \<and> guarded False (lockTrace flushScenario (CallGetRevisionFor ''u1''))
   \<and> guarded False (lockTrace flushScenario (CallStoreVersionMap [Is ''u3'' ''r2''] True))"
  by simp

section \<open>Facts about the gateway\<close>

subsection \<open>The loop of require terminates\<close>

lemma flag_bit: "bit (push_bit n (1 :: 32 word)) k \<longleftrightarrow> k = n \<and> n < 32"
  by (auto simp: bit_exp_iff)

lemma and_flag_iff: "(todo :: 32 word) AND push_bit n 1 \<noteq> 0 \<longleftrightarrow> bit todo n"
proof
  assume "todo AND push_bit n 1 \<noteq> 0"
  then obtain k where "bit (todo AND push_bit n 1) k"
    by (auto simp: bit_eq_iff)
  then show "bit todo n"
    by (auto simp: bit_and_iff flag_bit simp del: push_bit_of_1)
next
  assume b: "bit todo n"
  then have "n < 32" by (auto dest: bit_imp_le_length)
  with b have "bit (todo AND push_bit n 1) n"
    by (simp add: bit_and_iff flag_bit del: push_bit_of_1)
  show "todo AND push_bit n 1 \<noteq> 0"
  proof
    assume "todo AND push_bit n 1 = 0"
    with \<open>bit (todo AND push_bit n 1) n\<close> show False by simp
  qed
qed

lemma sub_flag:
  "bit (todo :: 32 word) n \<Longrightarrow> todo - push_bit n 1 = todo AND NOT (push_bit n 1)"
  by (rule disjunctive_diff) (simp add: flag_bit del: push_bit_of_1)

lemma sub_flag_bit:
  "bit (todo :: 32 word) n \<Longrightarrow> bit (todo - push_bit n 1) k \<longleftrightarrow> bit todo k \<and> k \<noteq> n"
  by (auto simp: sub_flag bit_and_iff bit_not_iff flag_bit simp del: push_bit_of_1 dest: bit_imp_le_length)

lemma take_bit_eq_0_bits:
  "take_bit n (x :: 32 word) = 0 \<longleftrightarrow> (\<forall>k<n. \<not> bit x k)"
proof
  assume "take_bit n x = 0"
  then have "\<not> bit (take_bit n x) k" for k by simp
  then show "\<forall>k<n. \<not> bit x k" by (simp add: bit_take_bit_iff)
next
  assume "\<forall>k<n. \<not> bit x k"
  then show "take_bit n x = 0"
    by (intro bit_eqI) (simp add: bit_take_bit_iff)
qed


lemma unat_succ64: "unat (i + 1 :: 64 word) = (if unat i = 2 ^ 64 - 1 then 0 else unat i + 1)"
proof -
  have "unat i < 2 ^ 64" using unsigned_less [of i] by simp
  then show ?thesis
    by (auto simp: unat_word_ariths)
qed

lemma requireMeasure_step:
  fixes todo todo' :: "32 word" and i :: "64 word"
  assumes nz: "todo \<noteq> 0"
    and sub: "\<And>k. bit todo' k \<Longrightarrow> bit todo k"
    and clr: "\<not> bit todo' (unat i)"
  shows "requireMeasure (i + 1) todo' < requireMeasure i todo"
proof (cases "unat i \<le> 32 \<and> take_bit (unat i) todo = 0")
  case True
  then have low: "\<forall>k<unat i. \<not> bit todo k" by (simp add: take_bit_eq_0_bits)
  have lt: "unat i < 32"
  proof (rule ccontr)
    assume "\<not> unat i < 32"
    with True have "take_bit (unat i) todo = todo" by (simp add: take_bit_word_eq_self)
    with True nz show False by simp
  qed
  then have suc: "unat (i + 1) = unat i + 1" by (simp add: unat_succ64)
  have "\<forall>k<unat i + 1. \<not> bit todo' k"
    using low sub clr by (auto simp: less_Suc_eq)
  then have "take_bit (unat (i + 1)) todo' = 0"
    by (simp add: take_bit_eq_0_bits suc)
  then have "requireMeasure (i + 1) todo' \<le> 33 - (unat i + 1)"
    using lt suc by (simp add: requireMeasure_def)
  moreover have "requireMeasure i todo = 33 - unat i"
    using True nz by (simp add: requireMeasure_def)
  ultimately show ?thesis using lt by arith
next
  case False
  have b: "unat i < 2 ^ 64" using unsigned_less [of i] by simp
  from False nz have m: "requireMeasure i todo = 2 ^ 64 - unat i + 33"
    by (auto simp: requireMeasure_def)
  show ?thesis
  proof (cases "unat i = 2 ^ 64 - 1")
    case True
    then have "unat (i + 1) = 0" by (simp add: unat_succ64)
    then have "requireMeasure (i + 1) todo' \<le> 33"
      by (simp add: requireMeasure_def)
    with m b show ?thesis by simp
  next
    case False
    then have "unat (i + 1) = unat i + 1" by (simp add: unat_succ64)
    then have "requireMeasure (i + 1) todo' \<le> 2 ^ 64 - (unat i + 1) + 33"
      using b by (auto simp: requireMeasure_def)
    with m b show ?thesis by simp
  qed
qed

termination requireLoop
  apply (relation "measure (\<lambda>(i, todo, sg, w). requireMeasure i todo)")
  apply simp
  subgoal for i todo sg w
    using requireMeasure_step [of todo "todo - push_bit (unat i) 1" i]
    by (simp add: sub_flag_bit and_flag_iff del: push_bit_of_1)
  subgoal for i todo sg w
    using requireMeasure_step [of todo todo i]
    by (simp add: and_flag_iff del: push_bit_of_1)
  done

text \<open>The equation of the loop is applied by hand: as a rewrite rule it would unfold forever.\<close>

declare requireLoop.simps [simp del]

subsection \<open>The loop performs the steps in increasing bit order\<close>

lemma acquire_srcState:
  "acquire flag sg w = Return (e, sg', w') \<Longrightarrow> srcState sg' = srcState sg"
  by (auto simp: acquire_def split: if_splits option.splits prod.splits)

lemma filter_bits_step:
  fixes todo :: "32 word"
  assumes "bit todo n"
  shows "filter (bit (todo - push_bit n 1)) [Suc n..<32] = filter (bit todo) [Suc n..<32]"
  by (rule filter_cong) (use assms in \<open>auto simp: sub_flag_bit simp del: push_bit_of_1\<close>)

lemma requireLoop_steps:
  fixes todo :: "32 word"
  assumes "unat i \<le> 32" "take_bit (unat i) todo = 0"
  shows "requireLoop i todo sg w = requireSteps (filter (bit todo) [unat i..<32]) sg w"
  using assms
proof (induction i todo sg w rule: requireLoop.induct)
  case (1 i todo sg w)
  show ?case
  proof (cases "todo = 0")
    case True
    then show ?thesis by (simp add: requireLoop.simps)
  next
    case nz: False
    from "1.prems" have low: "\<forall>k<unat i. \<not> bit todo k" by (simp add: take_bit_eq_0_bits)
    have lt: "unat i < 32"
    proof (rule ccontr)
      assume "\<not> unat i < 32"
      with "1.prems" have "take_bit (unat i) todo = todo" by (simp add: take_bit_word_eq_self)
      with "1.prems" nz show False by simp
    qed
    then have suc: "unat (i + 1) = Suc (unat i)" by (simp add: unat_succ64)
    have upt: "[unat i..<32] = unat i # [Suc (unat i)..<32]"
      using lt by (simp add: upt_conv_Cons)
    show ?thesis
    proof (cases "bit todo (unat i)")
      case True
      then have f: "todo AND push_bit (unat i) 1 \<noteq> 0" by (simp only: and_flag_iff)
      have low': "take_bit (unat (i + 1)) (todo - push_bit (unat i) 1) = 0"
        unfolding take_bit_eq_0_bits suc using low True
        by (auto simp: sub_flag_bit less_Suc_eq simp del: push_bit_of_1)
      have le': "unat (i + 1) \<le> 32" using lt suc by simp
      show ?thesis
      proof (cases "acquire (push_bit (unat i) 1) sg w")
        case Panic
        with nz f True show ?thesis
          by (subst requireLoop.simps) (simp add: upt del: push_bit_of_1)
      next
        case (Return x)
        obtain e sg' w' where x: "x = (e, sg', w')" by (cases x)
        show ?thesis
        proof (cases e)
          case None
          from "1.IH"(1) [OF nz f Return _ None _ le' low', of "(sg', w')" sg' w'] x
          have "requireLoop (i + 1) (todo - push_bit (unat i) 1)
                  (sg'\<lparr>srcState := srcState sg' OR push_bit (unat i) 1\<rparr>) w'
                = requireSteps (filter (bit (todo - push_bit (unat i) 1)) [unat (i + 1)..<32])
                    (sg'\<lparr>srcState := srcState sg' OR push_bit (unat i) 1\<rparr>) w'"
            by simp
          with nz f True Return x None show ?thesis
            by (subst requireLoop.simps)
               (simp add: upt suc filter_bits_step del: push_bit_of_1)
        next
          case (Some err)
          with nz f True Return x show ?thesis
            by (subst requireLoop.simps) (simp add: upt del: push_bit_of_1)
        qed
      qed
    next
      case False
      then have f: "\<not> todo AND push_bit (unat i) 1 \<noteq> 0"
        using and_flag_iff [of todo "unat i"] by blast
      have low': "take_bit (unat (i + 1)) todo = 0"
        unfolding take_bit_eq_0_bits suc using low False by (auto simp: less_Suc_eq)
      have le': "unat (i + 1) \<le> 32" using lt suc by simp
      from "1.IH"(2) [OF nz f le' low'] nz f False show ?thesis
        by (subst requireLoop.simps) (simp add: upt suc del: push_bit_of_1)
    qed
  qed
qed

lemma requireSteps_None:
  "requireSteps bs sg w = Return ((f, None), sg', w') \<Longrightarrow>
     f = 0 \<and> (\<forall>k. bit (srcState sg') k \<longleftrightarrow> bit (srcState sg) k \<or> (k \<in> set bs \<and> k < 32))"
proof (induction bs arbitrary: sg w)
  case Nil
  then show ?case by simp
next
  case (Cons b bs)
  from Cons.prems obtain sg1 w1 where a: "acquire (push_bit b 1) sg w = Return (None, sg1, w1)"
    and r: "requireSteps bs (sg1\<lparr>srcState := srcState sg1 OR push_bit b 1\<rparr>) w1 = Return ((f, None), sg', w')"
    by (auto split: result.splits option.splits prod.splits simp del: push_bit_of_1)
  from acquire_srcState [OF a] have s: "srcState sg1 = srcState sg" .
  from Cons.IH [OF r] s show ?case
    by (auto simp: bit_or_iff flag_bit simp del: push_bit_of_1)
qed

lemma requireSteps_Some:
  "requireSteps bs sg w = Return ((f, Some e), sg', w') \<Longrightarrow>
     \<exists>pre b post. bs = pre @ b # post \<and> f = push_bit b 1
        \<and> (\<forall>k. bit (srcState sg') k \<longleftrightarrow> bit (srcState sg) k \<or> (k \<in> set pre \<and> k < 32))"
proof (induction bs arbitrary: sg w)
  case Nil
  then show ?case by simp
next
  case (Cons b bs)
  show ?case
  proof (cases "acquire (push_bit b 1) sg w")
    case Panic
    with Cons.prems show ?thesis by (simp del: push_bit_of_1)
  next
    case (Return x)
    obtain e1 sg1 w1 where x: "x = (e1, sg1, w1)" by (cases x)
    from acquire_srcState [OF Return [unfolded x]] have s: "srcState sg1 = srcState sg" .
    show ?thesis
    proof (cases e1)
      case (Some err)
      with Cons.prems Return x s have "f = push_bit b 1" "srcState sg' = srcState sg"
        by (simp_all del: push_bit_of_1)
      then have "b # bs = [] @ b # bs \<and> f = push_bit b 1
          \<and> (\<forall>k. bit (srcState sg') k \<longleftrightarrow> bit (srcState sg) k \<or> (k \<in> set [] \<and> k < 32))"
        by simp
      then show ?thesis by blast
    next
      case None
      with Cons.prems Return x
      have "requireSteps bs (sg1\<lparr>srcState := srcState sg1 OR push_bit b 1\<rparr>) w1 = Return ((f, Some e), sg', w')"
        by (simp del: push_bit_of_1)
      from Cons.IH [OF this] obtain pre b' post where
        p: "bs = pre @ b' # post" "f = push_bit b' 1"
        "\<forall>k. bit (srcState sg') k \<longleftrightarrow>
            bit (srcState (sg1\<lparr>srcState := srcState sg1 OR push_bit b 1\<rparr>)) k \<or> (k \<in> set pre \<and> k < 32)"
        by blast
      then have "b # bs = (b # pre) @ b' # post \<and> f = push_bit b' 1
          \<and> (\<forall>k. bit (srcState sg') k \<longleftrightarrow> bit (srcState sg) k \<or> (k \<in> set (b # pre) \<and> k < 32))"
        using s by (auto simp: bit_or_iff flag_bit simp del: push_bit_of_1)
      then show ?thesis by blast
    qed
  qed
qed

lemma filter_upt_split:
  assumes "filter P [0..<n] = pre @ b # post"
  shows "b < n \<and> P b \<and> set pre = {k. k < b \<and> P k}"
proof -
  have sd: "sorted (pre @ b # post)" "distinct (pre @ b # post)"
    using assms [symmetric] by (simp_all add: sorted_wrt_filter)
  have mem: "set (pre @ b # post) = {k. k < n \<and> P k}"
    using assms [symmetric] by auto
  then have b: "b < n \<and> P b" by auto
  have "set pre = {k. k < b \<and> P k}"
  proof (intro set_eqI iffI)
    fix k assume k: "k \<in> set pre"
    with sd have "k \<le> b" "k \<noteq> b" by (auto simp: sorted_append)
    moreover from k mem have "P k" by auto
    ultimately show "k \<in> {k. k < b \<and> P k}" by simp
  next
    fix k assume "k \<in> {k. k < b \<and> P k}"
    then have k: "k < b" "P k" by simp_all
    with b mem have "k \<in> set (pre @ b # post)" by auto
    moreover from sd k have "k \<notin> set post" by (auto simp: sorted_append)
    ultimately show "k \<in> set pre" using k by auto
  qed
  with b show ?thesis by simp
qed

lemma or_take_bit_eqI:
  fixes s s' todo :: "32 word"
  assumes "\<And>k. bit s' k \<longleftrightarrow> bit s k \<or> (k < b \<and> bit todo k)"
  shows "s' = s OR take_bit b todo"
  by (rule bit_eqI) (simp add: assms bit_or_iff bit_take_bit_iff)

lemma require_steps:
  "require wanted sg w
     = requireSteps (filter (bit (NOT (srcState sg) AND wanted)) [0..<32]) sg w"
  unfolding require_def
  using requireLoop_steps [of 0 "NOT (srcState sg) AND wanted" sg w] by simp

lemma require_ok_state:
  assumes "require wanted sg w = Return ((errState, None), sg', w')"
  shows "errState = 0 \<and> srcState sg' = srcState sg OR wanted"
proof -
  let ?todo = "NOT (srcState sg) AND wanted"
  from assms have "requireSteps (filter (bit ?todo) [0..<32]) sg w = Return ((errState, None), sg', w')"
    by (simp add: require_steps)
  from requireSteps_None [OF this]
  have "errState = 0"
    and "\<And>k. bit (srcState sg') k \<longleftrightarrow> bit (srcState sg) k \<or> (bit ?todo k \<and> k < 32)"
    by auto
  then show ?thesis
    by (auto simp: bit_eq_iff bit_or_iff bit_and_iff bit_not_iff)
qed

lemma require_err_state:
  assumes "require wanted sg w = Return ((errState, Some err), sg', w')"
  shows "\<exists>b<32. errState = push_bit b 1 \<and> bit (NOT (srcState sg) AND wanted) b
           \<and> srcState sg' = srcState sg OR take_bit b (NOT (srcState sg) AND wanted)"
proof -
  let ?todo = "NOT (srcState sg) AND wanted"
  from assms have "requireSteps (filter (bit ?todo) [0..<32]) sg w = Return ((errState, Some err), sg', w')"
    by (simp add: require_steps)
  from requireSteps_Some [OF this] obtain pre b post where
    p: "filter (bit ?todo) [0..<32] = pre @ b # post" "errState = push_bit b 1"
    "\<And>k. bit (srcState sg') k \<longleftrightarrow> bit (srcState sg) k \<or> (k \<in> set pre \<and> k < 32)"
    by blast
  from filter_upt_split [OF p(1)] have b: "b < 32" "bit ?todo b" "set pre = {k. k < b \<and> bit ?todo k}"
    by simp_all
  have "srcState sg' = srcState sg OR take_bit b ?todo"
    by (rule or_take_bit_eqI) (use b p(3) in auto)
  with b p(2) show ?thesis by blast
qed

subsection \<open>Evaluating the gateway on the logging driver\<close>

lemma bits27: "filter (bit (27 :: 32 word)) [0..<32] = [0, 1, 3, 4]"
  by code_simp

lemma acquire_simps:
  "acquire 1 sg w =
     (case try' (maybe sg) (cachedir sg) (cache sg) w of
        ((s, u, err), c', w') \<Rightarrow> Return (err, sg\<lparr> src := s, url := u, cache := c' \<rparr>, w'))"
  "src sg = Some s \<Longrightarrow> acquire 2 sg w =
     (case checkExistence s existsUpstream (cache sg) w of
        (ok, c', w') \<Rightarrow> Return (if \<not> ok then Some (DoesNotExistUpstream (url sg)) else None,
                          sg\<lparr> cache := c' \<rparr>, w'))"
  "src sg = Some s \<Longrightarrow> acquire 8 sg w =
     (case listVersions s (cache sg) w of (err, c', w') \<Rightarrow> Return (err, sg\<lparr> cache := c' \<rparr>, w'))"
  "src sg = Some s \<Longrightarrow> acquire 16 sg w =
     (case syncLocal s (cache sg) w of (err, c', w') \<Rightarrow> Return (err, sg\<lparr> cache := c' \<rparr>, w'))"
  by (simp_all add: acquire_def sourceIsSetUp_def sourceExistsUpstream_def sourceExistsLocally_def
        sourceHasLatestVersionList_def sourceHasLatestLocally_def)

lemma bits9: "filter (bit (9 :: 32 word)) [0..<32] = [0, 3]"
  by code_simp

lemma latest_bit_set:
  "(s OR (sourceIsSetUp OR sourceHasLatestVersionList)) AND sourceHasLatestVersionList \<noteq> 0"
proof -
  have "bit ((s OR (sourceIsSetUp OR sourceHasLatestVersionList)) AND sourceHasLatestVersionList) 3"
    by (simp add: bit_and_iff bit_or_iff sourceHasLatestVersionList_def)
  then show ?thesis by auto
qed

section \<open>The claims about the gateway\<close>

subsection \<open>The readiness steps are taken in bit order\<close>

text \<open>
  Claim C1. \<open>require wanted\<close> performs the acquisition steps of the bits of
  \<open>todo = NOT srcState AND wanted\<close> in increasing bit order: it is \<open>requireSteps\<close> on the
  increasing list of these bits, where each successful step sets its bit and the first
  failing step ends the run with its bit and its error (a step on a \<open>nil\<close> driver panics).
  So, when it returns without error the state is \<open>srcState OR wanted\<close> and the returned bit is
  0; when it returns an error, the returned bit \<open>2 ^ b\<close> is a bit of \<open>todo\<close>, and exactly the
  bits of \<open>todo\<close> below \<open>b\<close> have been added to the state.
\<close>

theorem require_in_bit_order:
  "require wanted sg w
     = requireSteps (filter (bit (NOT (srcState sg) AND wanted)) [0..<32]) sg w
   \<and> (require wanted sg w = Return ((errState, None), sg', w') \<longrightarrow>
        errState = 0 \<and> srcState sg' = srcState sg OR wanted)
   \<and> (require wanted sg w = Return ((errState, Some err), sg', w') \<longrightarrow>
        (\<exists>b<32. errState = push_bit b 1 \<and> bit (NOT (srcState sg) AND wanted) b
           \<and> srcState sg' = srcState sg OR take_bit b (NOT (srcState sg) AND wanted)))"
  using require_steps [of wanted sg w] require_ok_state [of wanted sg w errState sg' w']
    require_err_state [of wanted sg w errState err sg' w']
  by blast

theorem require_in_bit_order_witness:
  "(\<exists>sg'. require 27 (freshGateway (Some (DriverError ''timeout''))) []
        = Return ((8, Some (DriverError ''timeout'')), sg',
                  [''try'', ''checkExistence'', ''listVersions''])
      \<and> srcState sg' = 3
      \<and> (\<exists>b<32. (8 :: sourceState) = push_bit b 1 \<and> bit (27 :: sourceState) b
             \<and> srcState sg' = take_bit b 27))
   \<and> (\<exists>sg'. require 27 (freshGateway None) []
        = Return ((0, None), sg', [''try'', ''checkExistence'', ''listVersions'', ''syncLocal''])
      \<and> srcState sg' = 27)"
proof -
  let ?E = "DriverError ''timeout'' :: string Version error"
  have s0: "srcState (freshGateway e) = 0" for e
    by (simp add: freshGateway_def newSourceGateway_def)
  obtain sg1 where r1: "require 27 (freshGateway (Some ?E)) []
        = Return ((8, Some ?E), sg1, [''try'', ''checkExistence'', ''listVersions''])"
    and v1: "srcState sg1 = 3"
    using require_in_bit_order [of 27 "freshGateway (Some ?E)" "[]"]
    by (simp add: bits27 freshGateway_def newSourceGateway_def loggingMaybe_def loggingSource_def
          acquire_simps)
  from require_in_bit_order [of 27 "freshGateway (Some ?E)" "[]" 8 sg1
         "[''try'', ''checkExistence'', ''listVersions'']" ?E] r1
  have c1: "\<exists>b<32. (8 :: sourceState) = push_bit b 1 \<and> bit (27 :: sourceState) b
             \<and> srcState sg1 = take_bit b 27"
    by (simp add: s0 del: push_bit_of_1)
  obtain sg2 where r2: "require 27 (freshGateway None) []
        = Return ((0, None), sg2, [''try'', ''checkExistence'', ''listVersions'', ''syncLocal''])"
    using require_in_bit_order [of 27 "freshGateway None" "[]"]
    by (simp add: bits27 freshGateway_def newSourceGateway_def loggingMaybe_def loggingSource_def
          acquire_simps)
  from require_in_bit_order [of 27 "freshGateway None" "[]" 0 sg2
         "[''try'', ''checkExistence'', ''listVersions'', ''syncLocal'']"] r2
  have c2: "srcState sg2 = 27"
    by (simp add: s0)
  from r1 v1 c1 r2 c2 show ?thesis by blast
qed

subsection \<open>Resolving a version to a revision\<close>

text \<open>
  Claim C2. \<open>convertToRevision v\<close> first asks the cache (which panics on a version that is
  none of the three variants): on a hit it returns the cached revision and leaves the gateway
  and the world as they are. On a miss with the
  has-latest-version-list bit already set it fails with "version does not exist in source",
  again leaving gateway and world as they are, so without any driver call. On a miss without
  the bit it runs \<open>require\<close> for set-up and has-latest-version-list; a panic or an error of
  \<open>require\<close> is passed on; after a successful \<open>require\<close> the bit is set and the cache is asked
  once more, the answer being the revision or the error "version does not exist in source".
\<close>

theorem convertToRevision_cases:
  "(toRevision (cache sg) v = Return (Some r) \<longrightarrow>
        convertToRevision v sg w = Return (Inr r, sg, w))
   \<and> (toRevision (cache sg) v = Panic \<longrightarrow> convertToRevision v sg w = Panic)
   \<and> (toRevision (cache sg) v = Return None
        \<and> srcState sg AND sourceHasLatestVersionList \<noteq> 0 \<longrightarrow>
        convertToRevision v sg w = Return (Inl (VersionDoesNotExist v), sg, w))
   \<and> (toRevision (cache sg) v = Return None
        \<and> srcState sg AND sourceHasLatestVersionList = 0 \<longrightarrow>
        (require (sourceIsSetUp OR sourceHasLatestVersionList) sg w = Panic \<longrightarrow>
           convertToRevision v sg w = Panic)
        \<and> (require (sourceIsSetUp OR sourceHasLatestVersionList) sg w
              = Return ((errState, Some err), sg', w') \<longrightarrow>
           convertToRevision v sg w = Return (Inl err, sg', w'))
        \<and> (require (sourceIsSetUp OR sourceHasLatestVersionList) sg w
              = Return ((errState, None), sg', w') \<longrightarrow>
           srcState sg' AND sourceHasLatestVersionList \<noteq> 0
           \<and> convertToRevision v sg w =
               (case toRevision (cache sg') v of
                  Panic \<Rightarrow> Panic
                | Return None \<Rightarrow> Return (Inl (VersionDoesNotExist v), sg', w')
                | Return (Some r') \<Rightarrow> Return (Inr r', sg', w'))))"
proof -
  have "srcState sg' AND sourceHasLatestVersionList \<noteq> 0"
    if "require (sourceIsSetUp OR sourceHasLatestVersionList) sg w = Return ((errState, None), sg', w')"
    using require_ok_state [OF that] latest_bit_set [of "srcState sg"] by simp
  then show ?thesis
    by (simp add: convertToRevision_def)
qed

theorem convertToRevision_cases_witness:
  "\<exists>sg1 sg2.
     toRevision (cache (freshGateway None)) (VUnpaired ''v1.2.3'') = Return None
     \<and> srcState (freshGateway None) AND sourceHasLatestVersionList = 0
     \<and> require (sourceIsSetUp OR sourceHasLatestVersionList) (freshGateway None) []
          = Return ((0, None), sg1, [''try'', ''listVersions''])
     \<and> convertToRevision (VUnpaired ''v1.2.3'') (freshGateway None) []
          = Return (Inr ''r_abc'', sg1, [''try'', ''listVersions''])
     \<and> toRevision (cache sg1) (VUnpaired ''v1.2.3'') = Return (Some ''r_abc'')
     \<and> convertToRevision (VUnpaired ''v1.2.3'') sg1 [''try'', ''listVersions'']
          = Return (Inr ''r_abc'', sg1, [''try'', ''listVersions''])
     \<and> convertToRevision (VUnpaired ''v9'') (freshGateway None) []
          = Return (Inl (VersionDoesNotExist (VUnpaired ''v9'')), sg1, [''try'', ''listVersions''])
     \<and> toRevision (cache sg1) (VUnpaired ''v9'') = Return None
     \<and> srcState sg1 AND sourceHasLatestVersionList \<noteq> 0
     \<and> convertToRevision (VUnpaired ''v9'') sg1 [''try'', ''listVersions'']
          = Return (Inl (VersionDoesNotExist (VUnpaired ''v9'')), sg1, [''try'', ''listVersions''])
     \<and> require (sourceIsSetUp OR sourceHasLatestVersionList)
          (freshGateway (Some (DriverError ''timeout''))) []
          = Return ((8, Some (DriverError ''timeout'')), sg2, [''try'', ''listVersions''])
     \<and> convertToRevision (VUnpaired ''v1.2.3'') (freshGateway (Some (DriverError ''timeout''))) []
          = Return (Inl (DriverError ''timeout''), sg2, [''try'', ''listVersions''])"
proof -
  let ?G = "freshGateway None"
  let ?L = "[''try'', ''listVersions'']"
  let ?E = "DriverError ''timeout'' :: string Version error"
  let ?w = "sourceIsSetUp OR sourceHasLatestVersionList"
  have w9: "?w = 9" by (simp add: sourceIsSetUp_def sourceHasLatestVersionList_def)
  have g: "toRevision (cache (freshGateway e)) (VUnpaired u) = Return None"
    "srcState (freshGateway e) AND sourceHasLatestVersionList = 0" for e u
    by (simp_all add: freshGateway_def newSourceGateway_def newMemoryCache_def)
  obtain sg1 where r1: "require ?w ?G [] = Return ((0, None), sg1, ?L)"
    and c1: "vMap (cache sg1) ''v1.2.3'' = Some ''r_abc''" "vMap (cache sg1) ''v9'' = None"
    by (simp add: w9 require_steps bits9 freshGateway_def newSourceGateway_def loggingMaybe_def
          loggingSource_def acquire_simps storeVersionMap_def)
  obtain sg2 where r2: "require ?w (freshGateway (Some ?E)) [] = Return ((8, Some ?E), sg2, ?L)"
    by (simp add: w9 require_steps bits9 freshGateway_def newSourceGateway_def loggingMaybe_def
          loggingSource_def acquire_simps)
  note a = convertToRevision_cases [of ?G "VUnpaired ''v1.2.3''" _ "[]" 0 _ sg1 ?L]
  note b = convertToRevision_cases [of ?G "VUnpaired ''v9''" _ "[]" 0 _ sg1 ?L]
  note c = convertToRevision_cases [of sg1 "VUnpaired ''v1.2.3''" "''r_abc''" ?L]
  note d = convertToRevision_cases [of sg1 "VUnpaired ''v9''" _ ?L]
  note e = convertToRevision_cases [of "freshGateway (Some ?E)" "VUnpaired ''v1.2.3''" _ "[]" 8 ?E sg2 ?L]
  from a r1 c1 g have a': "srcState sg1 AND sourceHasLatestVersionList \<noteq> 0"
    "convertToRevision (VUnpaired ''v1.2.3'') ?G [] = Return (Inr ''r_abc'', sg1, ?L)"
    by simp_all
  from b r1 c1 g have b': "convertToRevision (VUnpaired ''v9'') ?G []
      = Return (Inl (VersionDoesNotExist (VUnpaired ''v9'')), sg1, ?L)"
    by simp
  from c c1 have c': "convertToRevision (VUnpaired ''v1.2.3'') sg1 ?L = Return (Inr ''r_abc'', sg1, ?L)"
    by simp
  from d c1 a'(1) have d': "convertToRevision (VUnpaired ''v9'') sg1 ?L
      = Return (Inl (VersionDoesNotExist (VUnpaired ''v9'')), sg1, ?L)"
    by simp
  from e r2 g have e': "convertToRevision (VUnpaired ''v1.2.3'') (freshGateway (Some ?E)) []
      = Return (Inl ?E, sg2, ?L)"
    by simp
  from g r1 r2 c1 a' b' c' d' e' show ?thesis
    by (intro exI [of _ sg1] exI [of _ sg2]) simp
qed

section \<open>Facts about the coordinator\<close>

lemma inv_new: "coordinatorInv newSourceCoordinator"
  by (simp add: coordinatorInv_def newSourceCoordinator_def)

lemma doReturn_fields [simp]:
  "srcs (doReturn N res s) = srcs s"
  "nameToURL (doReturn N res s) = nameToURL s"
  "allocated (doReturn N res s) = allocated s"
  "panicked (doReturn N res s) = panicked s"
  "protoSrcs (doReturn N res s) = (protoSrcs s)(N := None)"
  by (simp_all add: doReturn_def)

lemma doReturn_calls:
  "calls (doReturn N res s) q =
     (if q \<in> set (case protoSrcs s N of None \<Rightarrow> [] | Some chans \<Rightarrow> chans)
      then map_option (\<lambda>(n, ph). (n, Returned res)) (calls s q)
      else calls s q)"
  by (simp add: doReturn_def)

lemma invI:
  assumes "\<not> panicked s"
    and "\<And>N U. nameToURL s N = Some U \<Longrightarrow> srcs s U \<noteq> None"
    and "\<And>p N ph. calls s p = Some (N, ph) \<Longrightarrow> working ph \<Longrightarrow> \<exists>rest. protoSrcs s N = Some (p # rest)"
    and "\<And>p N ph. calls s p = Some (N, ph) \<Longrightarrow> constructing ph \<Longrightarrow> nameToURL s N = None"
    and "\<And>p N g. calls s p = Some (N, Returned (Inr g)) \<Longrightarrow>
           \<exists>U. nameToURL s N = Some U \<and> srcs s U = Some g"
    and "\<And>N chans q. protoSrcs s N = Some chans \<Longrightarrow> q \<in> set chans \<Longrightarrow>
           \<exists>ph. calls s q = Some (N, ph) \<and> \<not> returned ph"
  shows "coordinatorInv s"
  unfolding coordinatorInv_def using assms by blast

lemma inv_invBut: "coordinatorInv s \<Longrightarrow> invBut M s"
  unfolding coordinatorInv_def invBut_def by blast

lemma invD_panicked: "coordinatorInv s \<Longrightarrow> \<not> panicked s"
  unfolding coordinatorInv_def by blast

lemma invD_url: "coordinatorInv s \<Longrightarrow> nameToURL s N = Some U \<Longrightarrow> \<exists>g. srcs s U = Some g"
  unfolding coordinatorInv_def by blast

lemma invD_worker:
  "coordinatorInv s \<Longrightarrow> calls s p = Some (N, ph) \<Longrightarrow> working ph \<Longrightarrow>
     \<exists>rest. protoSrcs s N = Some (p # rest)"
  unfolding coordinatorInv_def by blast

lemma invD_constructing:
  "coordinatorInv s \<Longrightarrow> calls s p = Some (N, ph) \<Longrightarrow> constructing ph \<Longrightarrow> nameToURL s N = None"
  unfolding coordinatorInv_def by blast

lemma invD_returned:
  "coordinatorInv s \<Longrightarrow> calls s p = Some (N, Returned (Inr g)) \<Longrightarrow>
     \<exists>U. nameToURL s N = Some U \<and> srcs s U = Some g"
  unfolding coordinatorInv_def by blast

lemma invD_waiter:
  "coordinatorInv s \<Longrightarrow> protoSrcs s N = Some chans \<Longrightarrow> q \<in> set chans \<Longrightarrow>
     \<exists>ph. calls s q = Some (N, ph) \<and> \<not> returned ph"
  unfolding coordinatorInv_def by blast

lemma invButD_worker:
  "invBut M s \<Longrightarrow> calls s p = Some (N, ph) \<Longrightarrow> working ph \<Longrightarrow>
     \<exists>rest. protoSrcs s N = Some (p # rest)"
  unfolding invBut_def by blast

lemma invButD_waiter:
  "invBut M s \<Longrightarrow> protoSrcs s N = Some chans \<Longrightarrow> q \<in> set chans \<Longrightarrow>
     \<exists>ph. calls s q = Some (N, ph) \<and> \<not> returned ph"
  unfolding invBut_def by blast

lemma invButD_returned:
  "invBut M s \<Longrightarrow> calls s p = Some (N, Returned (Inr g)) \<Longrightarrow>
     \<exists>U. nameToURL s N = Some U \<and> srcs s U = Some g"
  unfolding invBut_def by blast

lemma invButD_constructing:
  "invBut M s \<Longrightarrow> calls s p = Some (N, ph) \<Longrightarrow> constructing ph \<Longrightarrow> N \<noteq> M \<Longrightarrow> nameToURL s N = None"
  unfolding invBut_def by blast

lemma invButD_url: "invBut M s \<Longrightarrow> nameToURL s N = Some U \<Longrightarrow> srcs s U \<noteq> None"
  unfolding invBut_def by blast

lemma invButD_panicked: "invBut M s \<Longrightarrow> \<not> panicked s"
  unfolding invBut_def by blast

text \<open>The calls after a doReturn, in a state where the waiters are calls of the name.\<close>

lemma doReturn_calls_cases:
  assumes "invBut M s" and "calls (doReturn N res s) q = Some (N', ph)"
  shows "(calls s q = Some (N', ph) \<and> (\<forall>chans. protoSrcs s N = Some chans \<longrightarrow> q \<notin> set chans))
         \<or> (N' = N \<and> ph = Returned res \<and> (\<exists>chans. protoSrcs s N = Some chans \<and> q \<in> set chans))"
proof (cases "protoSrcs s N")
  case None
  with assms(2) show ?thesis by (simp add: doReturn_calls)
next
  case (Some chans)
  show ?thesis
  proof (cases "q \<in> set chans")
    case True
    from invButD_waiter [OF assms(1) Some True] obtain ph0 where "calls s q = Some (N, ph0)" by blast
    with assms(2) Some True show ?thesis by (simp add: doReturn_calls)
  next
    case False
    with assms(2) Some show ?thesis by (simp add: doReturn_calls)
  qed
qed

lemma doReturn_inv:
  assumes i: "invBut N s"
    and r: "\<And>g. res = Inr g \<Longrightarrow> \<exists>U. nameToURL s N = Some U \<and> srcs s U = Some g"
  shows "coordinatorInv (doReturn N res s)"
proof (rule invI)
  show "\<not> panicked (doReturn N res s)" using invButD_panicked [OF i] by simp
next
  fix N' U assume "nameToURL (doReturn N res s) N' = Some U"
  then show "srcs (doReturn N res s) U \<noteq> None" using invButD_url [OF i] by simp
next
  fix p N' ph assume c: "calls (doReturn N res s) p = Some (N', ph)" and w: "working ph"
  from doReturn_calls_cases [OF i c] w
  have c0: "calls s p = Some (N', ph)" and n: "\<forall>chans. protoSrcs s N = Some chans \<longrightarrow> p \<notin> set chans"
    by auto
  from invButD_worker [OF i c0 w] obtain rest where p: "protoSrcs s N' = Some (p # rest)" by blast
  with n have "N' \<noteq> N" by auto
  with p show "\<exists>rest. protoSrcs (doReturn N res s) N' = Some (p # rest)" by simp
next
  fix p N' ph assume c: "calls (doReturn N res s) p = Some (N', ph)" and w: "constructing ph"
  from doReturn_calls_cases [OF i c] w
  have c0: "calls s p = Some (N', ph)" and n: "\<forall>chans. protoSrcs s N = Some chans \<longrightarrow> p \<notin> set chans"
    by auto
  from w have "working ph" by (cases ph) simp_all
  from invButD_worker [OF i c0 this] obtain rest where p: "protoSrcs s N' = Some (p # rest)" by blast
  with n have "N' \<noteq> N" by auto
  from invButD_constructing [OF i c0 w this] show "nameToURL (doReturn N res s) N' = None" by simp
next
  fix p N' g assume c: "calls (doReturn N res s) p = Some (N', Returned (Inr g))"
  from doReturn_calls_cases [OF i c]
  show "\<exists>U. nameToURL (doReturn N res s) N' = Some U \<and> srcs (doReturn N res s) U = Some g"
  proof
    assume "calls s p = Some (N', Returned (Inr g))
              \<and> (\<forall>chans. protoSrcs s N = Some chans \<longrightarrow> p \<notin> set chans)"
    then have "calls s p = Some (N', Returned (Inr g))" by blast
    from invButD_returned [OF i this] show ?thesis by simp
  next
    assume "N' = N \<and> Returned (Inr g) = Returned res
              \<and> (\<exists>chans. protoSrcs s N = Some chans \<and> p \<in> set chans)"
    then show ?thesis using r [of g] by simp
  qed
next
  fix N' chans q assume p: "protoSrcs (doReturn N res s) N' = Some chans" and q: "q \<in> set chans"
  then have ne: "N' \<noteq> N" and p0: "protoSrcs s N' = Some chans" by (auto split: if_splits)
  from invButD_waiter [OF i p0 q] obtain ph where c0: "calls s q = Some (N', ph)" "\<not> returned ph"
    by blast
  have "q \<notin> set chans'" if "protoSrcs s N = Some chans'" for chans'
  proof
    assume "q \<in> set chans'"
    from invButD_waiter [OF i that this] c0 ne show False by auto
  qed
  with c0 have "calls (doReturn N res s) q = Some (N', ph)"
    by (auto simp: doReturn_calls split: option.splits)
  with c0 show "\<exists>ph. calls (doReturn N res s) q = Some (N', ph) \<and> \<not> returned ph" by blast
qed


text \<open>A call moves to another phase, or a new call enters.\<close>

lemma setPhase_inv:
  assumes i: "coordinatorInv s"
    and w: "working ph \<Longrightarrow> \<exists>rest. protoSrcs s N = Some (p # rest)"
    and c: "constructing ph \<Longrightarrow> nameToURL s N = None"
    and r: "\<And>g. ph = Returned (Inr g) \<Longrightarrow> \<exists>U. nameToURL s N = Some U \<and> srcs s U = Some g"
    and q: "\<And>N' chans. protoSrcs s N' = Some chans \<Longrightarrow> p \<in> set chans \<Longrightarrow> N' = N \<and> \<not> returned ph"
  shows "coordinatorInv (s\<lparr> calls := (calls s)(p \<mapsto> (N, ph)) \<rparr>)"
proof (rule invI)
  show "\<not> panicked (s\<lparr> calls := (calls s)(p \<mapsto> (N, ph)) \<rparr>)"
    using invD_panicked [OF i] by simp
next
  fix N' U assume "nameToURL (s\<lparr> calls := (calls s)(p \<mapsto> (N, ph)) \<rparr>) N' = Some U"
  then show "srcs (s\<lparr> calls := (calls s)(p \<mapsto> (N, ph)) \<rparr>) U \<noteq> None"
    using invD_url [OF i] by auto
next
  fix p' N' ph'
  assume "calls (s\<lparr> calls := (calls s)(p \<mapsto> (N, ph)) \<rparr>) p' = Some (N', ph')" and "working ph'"
  then show "\<exists>rest. protoSrcs (s\<lparr> calls := (calls s)(p \<mapsto> (N, ph)) \<rparr>) N' = Some (p' # rest)"
    using w invD_worker [OF i] by (cases "p' = p") auto
next
  fix p' N' ph'
  assume "calls (s\<lparr> calls := (calls s)(p \<mapsto> (N, ph)) \<rparr>) p' = Some (N', ph')" and "constructing ph'"
  then show "nameToURL (s\<lparr> calls := (calls s)(p \<mapsto> (N, ph)) \<rparr>) N' = None"
    using c invD_constructing [OF i] by (cases "p' = p") auto
next
  fix p' N' g
  assume "calls (s\<lparr> calls := (calls s)(p \<mapsto> (N, ph)) \<rparr>) p' = Some (N', Returned (Inr g))"
  then show "\<exists>U. nameToURL (s\<lparr> calls := (calls s)(p \<mapsto> (N, ph)) \<rparr>) N' = Some U
                \<and> srcs (s\<lparr> calls := (calls s)(p \<mapsto> (N, ph)) \<rparr>) U = Some g"
    using r invD_returned [OF i] by (cases "p' = p") auto
next
  fix N' chans q'
  assume a: "protoSrcs (s\<lparr> calls := (calls s)(p \<mapsto> (N, ph)) \<rparr>) N' = Some chans" "q' \<in> set chans"
  then have a0: "protoSrcs s N' = Some chans" by simp
  show "\<exists>ph'. calls (s\<lparr> calls := (calls s)(p \<mapsto> (N, ph)) \<rparr>) q' = Some (N', ph') \<and> \<not> returned ph'"
  proof (cases "q' = p")
    case True
    with q [OF a0] a(2) show ?thesis by simp
  next
    case False
    with invD_waiter [OF i a0 a(2)] show ?thesis by simp
  qed
qed

lemma allocated_inv:
  "coordinatorInv s \<Longrightarrow> coordinatorInv (s\<lparr> allocated := n \<rparr>)"
  unfolding coordinatorInv_def by simp

lemma waiter_name:
  assumes i: "coordinatorInv s" and c: "calls s p = Some (N, ph)"
    and a: "protoSrcs s N' = Some chans" "p \<in> set chans"
  shows "N' = N"
  using invD_waiter [OF i a] c by auto

text \<open>The goroutine of a call joins the waiters, or becomes the worker.\<close>

lemma attach_inv:
  assumes i: "coordinatorInv s" and c: "calls s p = Some (N, Spawned)"
    and s': "s' = s\<lparr> protoSrcs := (protoSrcs s)(N \<mapsto> chans'), calls := (calls s)(p \<mapsto> (N, ph')) \<rparr>"
    and k: "(protoSrcs s N = None \<and> chans' = [p] \<and> ph' = Deducing)
            \<or> (\<exists>chans. protoSrcs s N = Some chans \<and> chans' = chans @ [p] \<and> ph' = Waiting)"
  shows "coordinatorInv s'"
proof (rule invI)
  show "\<not> panicked s'" using invD_panicked [OF i] by (simp add: s')
next
  fix N' U assume "nameToURL s' N' = Some U"
  then show "srcs s' U \<noteq> None" using invD_url [OF i] by (auto simp: s')
next
  fix p' N' ph assume a: "calls s' p' = Some (N', ph)" "working ph"
  show "\<exists>rest. protoSrcs s' N' = Some (p' # rest)"
  proof (cases "p' = p")
    case True
    with a k show ?thesis by (auto simp: s')
  next
    case False
    with a have c0: "calls s p' = Some (N', ph)" by (simp add: s')
    from invD_worker [OF i c0 a(2)] obtain rest where "protoSrcs s N' = Some (p' # rest)" by blast
    with k show ?thesis by (auto simp: s')
  qed
next
  fix p' N' ph assume a: "calls s' p' = Some (N', ph)" "constructing ph"
  with k have "p' \<noteq> p" by (auto simp: s')
  with a have "calls s p' = Some (N', ph)" by (simp add: s')
  from invD_constructing [OF i this a(2)] show "nameToURL s' N' = None" by (simp add: s')
next
  fix p' N' g assume a: "calls s' p' = Some (N', Returned (Inr g))"
  with k have "p' \<noteq> p" by (auto simp: s')
  with a have "calls s p' = Some (N', Returned (Inr g))" by (simp add: s')
  from invD_returned [OF i this] show "\<exists>U. nameToURL s' N' = Some U \<and> srcs s' U = Some g"
    by (simp add: s')
next
  fix N' chans q assume a: "protoSrcs s' N' = Some chans" "q \<in> set chans"
  show "\<exists>ph. calls s' q = Some (N', ph) \<and> \<not> returned ph"
  proof (cases "q = p")
    case True
    have "N' = N"
    proof (rule ccontr)
      assume "N' \<noteq> N"
      with a have "protoSrcs s N' = Some chans" by (simp add: s')
      from invD_waiter [OF i this a(2)] c True \<open>N' \<noteq> N\<close> show False by auto
    qed
    with True k show ?thesis by (auto simp: s')
  next
    case False
    have "\<exists>chans0. protoSrcs s N' = Some chans0 \<and> q \<in> set chans0"
      using a k False by (cases "N' = N") (auto simp: s')
    then obtain chans0 where "protoSrcs s N' = Some chans0" "q \<in> set chans0" by blast
    from invD_waiter [OF i this] False show ?thesis by (simp add: s')
  qed
qed

text \<open>The state of an install before its doReturn.\<close>

lemma install_invBut:
  assumes i: "coordinatorInv s" and c: "calls s p = Some (N, Installing g U)"
    and s': "s' = s\<lparr> nameToURL := (nameToURL s)(N \<mapsto> U), srcs := (srcs s)(U \<mapsto> g') \<rparr>"
    and g': "srcs s U = Some g' \<or> srcs s U = None"
  shows "invBut N s'"
proof -
  from invD_constructing [OF i c] have n: "nameToURL s N = None" by simp
  have keep: "srcs s' U' = Some g0" if "srcs s U' = Some g0" for U' g0
    using that g' by (auto simp: s')
  show ?thesis
    unfolding invBut_def
  proof (intro conjI allI impI)
    show "\<not> panicked s'" using invD_panicked [OF i] by (simp add: s')
  next
    fix N' U' assume "nameToURL s' N' = Some U'"
    then show "srcs s' U' \<noteq> None"
      using invD_url [OF i, of N' U'] by (auto simp: s' split: if_splits)
  next
    fix p' N' ph assume "calls s' p' = Some (N', ph)" "working ph"
    then show "\<exists>rest. protoSrcs s' N' = Some (p' # rest)"
      using invD_worker [OF i, of p' N' ph] by (simp add: s')
  next
    fix p' N' ph assume "calls s' p' = Some (N', ph)" "constructing ph" "N' \<noteq> N"
    then show "nameToURL s' N' = None"
      using invD_constructing [OF i, of p' N' ph] by (simp add: s')
  next
    fix p' N' g0 assume "calls s' p' = Some (N', Returned (Inr g0))"
    then have c0: "calls s p' = Some (N', Returned (Inr g0))" by (simp add: s')
    from invD_returned [OF i c0] obtain U' where u: "nameToURL s N' = Some U'" "srcs s U' = Some g0"
      by blast
    with n have "N' \<noteq> N" by auto
    with u keep show "\<exists>U. nameToURL s' N' = Some U \<and> srcs s' U = Some g0"
      by (auto simp: s')
  next
    fix N' chans q assume "protoSrcs s' N' = Some chans" "q \<in> set chans"
    then show "\<exists>ph. calls s' q = Some (N', ph) \<and> \<not> returned ph"
      using invD_waiter [OF i, of N' chans q] by (simp add: s')
  qed
qed


lemma worker_moves_inv:
  assumes i: "coordinatorInv s" and c: "calls s p = Some (N, ph0)" and w0: "working ph0"
    and w: "working ph" and n: "constructing ph \<Longrightarrow> nameToURL s N = None"
  shows "coordinatorInv (s\<lparr> calls := (calls s)(p \<mapsto> (N, ph)) \<rparr>)"
proof (rule setPhase_inv [OF i])
  show "\<exists>rest. protoSrcs s N = Some (p # rest)" by (rule invD_worker [OF i c w0])
next
  assume "constructing ph"
  then show "nameToURL s N = None" by (rule n)
next
  fix g assume "ph = Returned (Inr g)"
  with w show "\<exists>U. nameToURL s N = Some U \<and> srcs s U = Some g" by simp
next
  fix N' chans assume a: "protoSrcs s N' = Some chans" "p \<in> set chans"
  from w have "\<not> returned ph" by (cases ph) simp_all
  with waiter_name [OF i c a] show "N' = N \<and> \<not> returned ph" by simp
qed

text \<open>Each event keeps the invariant.\<close>

lemma fire_Call_inv:
  assumes i: "coordinatorInv s"
  shows "coordinatorInv (fire s (Call p N))"
proof -
  show ?thesis
  proof (cases "calls s p")
    case (Some c)
    with i show ?thesis by simp
  next
    case None
    have fresh: False if "protoSrcs s N' = Some chans" "p \<in> set chans" for N' chans
      using invD_waiter [OF i that] None by simp
    show ?thesis
    proof (cases "\<exists>U g. nameToURL s N = Some U \<and> srcs s U = Some g")
      case True
      then obtain U g where u: "nameToURL s N = Some U" "srcs s U = Some g" by blast
      have "coordinatorInv (s\<lparr> calls := (calls s)(p \<mapsto> (N, Returned (Inr g))) \<rparr>)"
        by (rule setPhase_inv [OF i]) (use u fresh in auto)
      with None u show ?thesis by simp
    next
      case False
      have "coordinatorInv (s\<lparr> calls := (calls s)(p \<mapsto> (N, Spawned)) \<rparr>)"
        by (rule setPhase_inv [OF i]) (use fresh in auto)
      with None False show ?thesis by (auto split: option.splits)
    qed
  qed
qed

lemma fire_Attach_inv:
  assumes i: "coordinatorInv s"
  shows "coordinatorInv (fire s (Attach p))"
proof -
  show ?thesis
  proof (cases "\<exists>N. calls s p = Some (N, Spawned)")
    case True
    then obtain N where c: "calls s p = Some (N, Spawned)" by blast
    show ?thesis
    proof (cases "protoSrcs s N")
      case None
      have "coordinatorInv (s\<lparr> protoSrcs := (protoSrcs s)(N \<mapsto> [p]),
                                calls := (calls s)(p \<mapsto> (N, Deducing)) \<rparr>)"
        by (rule attach_inv [OF i c refl]) (use None in simp)
      with c None show ?thesis by simp
    next
      case (Some chans)
      have "coordinatorInv (s\<lparr> protoSrcs := (protoSrcs s)(N \<mapsto> chans @ [p]),
                                calls := (calls s)(p \<mapsto> (N, Waiting)) \<rparr>)"
        by (rule attach_inv [OF i c refl]) (use Some in simp)
      with c Some show ?thesis by simp
    qed
  next
    case False
    with i show ?thesis
      by (auto split: option.splits phase.splits)
  qed
qed

lemma fire_Deduced_inv:
  assumes i: "coordinatorInv s"
  shows "coordinatorInv (fire s (Deduced p r))"
proof -
  show ?thesis
  proof (cases "\<exists>N. calls s p = Some (N, Deducing)")
    case True
    then obtain N where c: "calls s p = Some (N, Deducing)" by blast
    from invD_worker [OF i c] obtain rest where w: "protoSrcs s N = Some (p # rest)" by auto
    show ?thesis
    proof (cases r)
      case None
      have "coordinatorInv (s\<lparr> calls := (calls s)(p \<mapsto> (N, Rechecking)) \<rparr>)"
        by (rule worker_moves_inv [OF i c]) simp_all
      with c None show ?thesis by simp
    next
      case (Some err)
      have "coordinatorInv (doReturn N (Inl err) s)"
        by (rule doReturn_inv [OF inv_invBut [OF i]]) simp
      with c Some show ?thesis by simp
    qed
  next
    case False
    with i show ?thesis
      by (auto split: option.splits phase.splits)
  qed
qed

lemma fire_Recheck_inv:
  assumes i: "coordinatorInv s"
  shows "coordinatorInv (fire s (Recheck p))"
proof -
  show ?thesis
  proof (cases "\<exists>N. calls s p = Some (N, Rechecking)")
    case True
    then obtain N where c: "calls s p = Some (N, Rechecking)" by blast
    from invD_worker [OF i c] obtain rest where w: "protoSrcs s N = Some (p # rest)" by auto
    show ?thesis
    proof (cases "nameToURL s N")
      case None
      have "coordinatorInv (s\<lparr> calls := (calls s)(p \<mapsto> (N, Building)) \<rparr>)"
        by (rule worker_moves_inv [OF i c]) (simp_all add: None)
      with c None show ?thesis by simp
    next
      case (Some U)
      from invD_url [OF i Some] obtain g where g: "srcs s U = Some g" by blast
      have "coordinatorInv (doReturn N (Inr g) s)"
        by (rule doReturn_inv [OF inv_invBut [OF i]]) (use Some g in simp)
      with c Some g show ?thesis by simp
    qed
  next
    case False
    with i show ?thesis
      by (auto split: option.splits phase.splits)
  qed
qed

lemma fire_Built_inv:
  assumes i: "coordinatorInv s"
  shows "coordinatorInv (fire s (Built p r))"
proof -
  show ?thesis
  proof (cases "\<exists>N. calls s p = Some (N, Building)")
    case True
    then obtain N where c: "calls s p = Some (N, Building)" by blast
    from invD_worker [OF i c] obtain rest where w: "protoSrcs s N = Some (p # rest)" by auto
    from invD_constructing [OF i c] have n: "nameToURL s N = None" by simp
    let ?s = "s\<lparr> allocated := allocated s + 1 \<rparr>"
    have i': "coordinatorInv ?s" by (rule allocated_inv [OF i])
    show ?thesis
    proof (cases r)
      case (Inl err)
      have "coordinatorInv (doReturn N (Inl err) ?s)"
        by (rule doReturn_inv [OF inv_invBut [OF i']]) simp
      with c Inl show ?thesis by simp
    next
      case (Inr U)
      have "coordinatorInv (?s\<lparr> calls := (calls ?s)(p \<mapsto> (N, Installing (allocated s) U)) \<rparr>)"
        by (rule worker_moves_inv [OF i', of p N Building]) (simp_all add: c n)
      with c Inr show ?thesis by simp
    qed
  next
    case False
    with i show ?thesis
      by (auto split: option.splits phase.splits)
  qed
qed

lemma fire_Install_inv:
  assumes i: "coordinatorInv s"
  shows "coordinatorInv (fire s (Install p))"
proof -
  show ?thesis
  proof (cases "\<exists>N g U. calls s p = Some (N, Installing g U)")
    case True
    then obtain N g U where c: "calls s p = Some (N, Installing g U)" by blast
    show ?thesis
    proof (cases "srcs s U")
      case None
      let ?s = "s\<lparr> nameToURL := (nameToURL s)(N \<mapsto> U), srcs := (srcs s)(U \<mapsto> g) \<rparr>"
      have "invBut N ?s" by (rule install_invBut [OF i c refl]) (use None in simp)
      then have "coordinatorInv (doReturn N (Inr g) ?s)"
        by (rule doReturn_inv) simp
      with c None show ?thesis by simp
    next
      case (Some sa)
      let ?s = "s\<lparr> nameToURL := (nameToURL s)(N \<mapsto> U), srcs := (srcs s)(U \<mapsto> sa) \<rparr>"
      have e: "?s = s\<lparr> nameToURL := (nameToURL s)(N \<mapsto> U) \<rparr>"
        using Some by (simp add: fun_upd_idem)
      have "invBut N ?s" by (rule install_invBut [OF i c refl]) (use Some in simp)
      then have "coordinatorInv (doReturn N (Inr sa) ?s)"
        by (rule doReturn_inv) simp
      with c Some e show ?thesis by simp
    qed
  next
    case False
    with i show ?thesis
      by (auto split: option.splits phase.splits)
  qed
qed

lemma fire_inv: "coordinatorInv s \<Longrightarrow> coordinatorInv (fire s ev)"
  by (cases ev)
     (simp_all only: fire_Call_inv fire_Attach_inv fire_Deduced_inv fire_Recheck_inv
        fire_Built_inv fire_Install_inv)

lemma step_inv: "coordinatorInv s \<Longrightarrow> coordinatorInv (step s ev)"
  by (simp add: step_def fire_inv)

lemma foldl_step_inv: "coordinatorInv s \<Longrightarrow> coordinatorInv (foldl step s evs)"
  by (induction evs arbitrary: s) (simp_all add: step_inv)

lemma runCoordinator_inv: "coordinatorInv (runCoordinator evs)"
  unfolding runCoordinator_def by (rule foldl_step_inv [OF inv_new])

text \<open>What has been stored or returned stays.\<close>

lemma fire_srcs_stable: "srcs s U = Some g \<Longrightarrow> srcs (fire s ev) U = Some g"
  by (cases ev) (auto split: option.splits phase.splits prod.splits sum.splits)

lemma fire_nameToURL_stable:
  assumes i: "coordinatorInv s" and n: "nameToURL s N = Some U"
  shows "nameToURL (fire s ev) N = Some U"
proof (cases ev)
  case (Install p)
  show ?thesis
  proof (cases "\<exists>N' g U'. calls s p = Some (N', Installing g U')")
    case True
    then obtain N' g U' where c: "calls s p = Some (N', Installing g U')" by blast
    from invD_constructing [OF i c] n have "N' \<noteq> N" by auto
    with Install c n show ?thesis by (simp split: option.splits)
  next
    case False
    with Install n show ?thesis by (auto split: option.splits phase.splits prod.splits)
  qed
qed (use n in \<open>auto split: option.splits phase.splits prod.splits sum.splits\<close>)

lemma fire_returned_stable:
  assumes i: "coordinatorInv s" and c: "calls s p = Some (N, Returned r)"
  shows "calls (fire s ev) p = Some (N, Returned r)"
proof -
  have d: "calls (doReturn N' res s') p = Some (N, Returned r)"
    if "calls s' = calls s" "protoSrcs s' = protoSrcs s" for N' res and s' :: "'a sourceCoordinator"
  proof (cases "protoSrcs s N'")
    case None
    with that c show ?thesis by (simp add: doReturn_calls)
  next
    case (Some chans)
    have "p \<notin> set chans"
    proof
      assume "p \<in> set chans"
      from invD_waiter [OF i Some this] c show False by auto
    qed
    with that c Some show ?thesis by (simp add: doReturn_calls)
  qed
  show ?thesis
  proof (cases ev)
    case (Call q M)
    with c show ?thesis by (auto split: option.splits)
  next
    case (Attach q)
    with c show ?thesis by (auto split: option.splits phase.splits prod.splits)
  next
    case (Deduced q e)
    with c d [of s] show ?thesis by (auto split: option.splits phase.splits prod.splits)
  next
    case (Recheck q)
    with c d [of s] show ?thesis by (auto split: option.splits phase.splits prod.splits)
  next
    case (Built q e)
    with c d [of "s\<lparr>allocated := allocated s + 1\<rparr>"] show ?thesis
      by (auto split: option.splits phase.splits prod.splits sum.splits)
  next
    case (Install q)
    show ?thesis
    proof (cases "\<exists>N' g U'. calls s q = Some (N', Installing g U')")
      case True
      then obtain N' g U' where c': "calls s q = Some (N', Installing g U')" by blast
      with Install c d [of "s\<lparr> nameToURL := (nameToURL s)(N' \<mapsto> U') \<rparr>"]
        d [of "s\<lparr> nameToURL := (nameToURL s)(N' \<mapsto> U'), srcs := (srcs s)(U' \<mapsto> g) \<rparr>"]
      show ?thesis by (simp split: option.splits)
    next
      case False
      with Install c show ?thesis by (auto split: option.splits phase.splits prod.splits)
    qed
  qed
qed

lemma step_stable:
  assumes i: "coordinatorInv s"
  shows "(srcs s U = Some g \<longrightarrow> srcs (step s ev) U = Some g)
     \<and> (nameToURL s N = Some U \<longrightarrow> nameToURL (step s ev) N = Some U)
     \<and> (calls s p = Some (N, Returned r) \<longrightarrow> calls (step s ev) p = Some (N, Returned r))"
  using fire_srcs_stable [of s U g ev] fire_nameToURL_stable [OF i, of N U ev]
    fire_returned_stable [OF i, of p N r ev]
  by (simp add: step_def)

lemma foldl_step_stable:
  assumes i: "coordinatorInv s"
  shows "(srcs s U = Some g \<longrightarrow> srcs (foldl step s evs) U = Some g)
     \<and> (nameToURL s N = Some U \<longrightarrow> nameToURL (foldl step s evs) N = Some U)
     \<and> (calls s p = Some (N, Returned r) \<longrightarrow> calls (foldl step s evs) p = Some (N, Returned r))"
  using i
proof (induction evs arbitrary: s)
  case Nil
  show ?case by simp
next
  case (Cons ev evs)
  from Cons.IH [OF step_inv [OF Cons.prems], of ev] step_stable [OF Cons.prems, of U g ev N p r]
  show ?case by simp
qed

text \<open>The gateways stay fresh.\<close>

lemma freshI:
  assumes "\<And>U g. srcs s U = Some g \<Longrightarrow> g < allocated s"
    and "\<And>p N g U. calls s p = Some (N, Installing g U) \<Longrightarrow> g < allocated s"
    and "\<And>p N g U U'. calls s p = Some (N, Installing g U) \<Longrightarrow> srcs s U' \<noteq> Some g"
    and "\<And>p q N N' g U U'. calls s p = Some (N, Installing g U) \<Longrightarrow>
           calls s q = Some (N', Installing g U') \<Longrightarrow> p = q"
  shows "freshInv s"
  unfolding freshInv_def using assms by blast

lemma freshD_srcs: "freshInv s \<Longrightarrow> srcs s U = Some g \<Longrightarrow> g < allocated s"
  unfolding freshInv_def by blast

lemma freshD_alloc: "freshInv s \<Longrightarrow> calls s p = Some (N, Installing g U) \<Longrightarrow> g < allocated s"
  unfolding freshInv_def by blast

lemma freshD_new: "freshInv s \<Longrightarrow> calls s p = Some (N, Installing g U) \<Longrightarrow> srcs s U' \<noteq> Some g"
  unfolding freshInv_def by blast

lemma freshD_one:
  "freshInv s \<Longrightarrow> calls s p = Some (N, Installing g U) \<Longrightarrow>
     calls s q = Some (N', Installing g U') \<Longrightarrow> p = q"
  unfolding freshInv_def by blast

lemma fresh_new: "freshInv newSourceCoordinator"
  by (simp add: freshInv_def newSourceCoordinator_def)

lemma doReturn_installing:
  "calls (doReturn M res s) q = Some (N, Installing g U) \<Longrightarrow> calls s q = Some (N, Installing g U)"
  by (auto simp add: doReturn_calls split: if_splits)

lemma doReturn_fresh:
  assumes f: "freshInv s"
  shows "freshInv (doReturn M res s)"
proof (rule freshI)
  fix U g assume "srcs (doReturn M res s) U = Some g"
  then show "g < allocated (doReturn M res s)" using freshD_srcs [OF f] by simp
next
  fix p N g U assume "calls (doReturn M res s) p = Some (N, Installing g U)"
  from freshD_alloc [OF f doReturn_installing [OF this]]
  show "g < allocated (doReturn M res s)" by simp
next
  fix p N g U U' assume "calls (doReturn M res s) p = Some (N, Installing g U)"
  from freshD_new [OF f doReturn_installing [OF this]]
  show "srcs (doReturn M res s) U' \<noteq> Some g" by simp
next
  fix p q N N' g U U'
  assume "calls (doReturn M res s) p = Some (N, Installing g U)"
    "calls (doReturn M res s) q = Some (N', Installing g U')"
  from freshD_one [OF f doReturn_installing [OF this(1)] doReturn_installing [OF this(2)]]
  show "p = q" .
qed

text \<open>A step that changes the phase of one call to a phase that is not an install.\<close>

lemma setPhase_fresh:
  assumes f: "freshInv s" and n: "\<And>g U. ph \<noteq> Installing g U"
  shows "freshInv (s\<lparr> calls := (calls s)(p \<mapsto> (N, ph)) \<rparr>)"
proof (rule freshI)
  fix U g assume "srcs (s\<lparr> calls := (calls s)(p \<mapsto> (N, ph)) \<rparr>) U = Some g"
  then show "g < allocated (s\<lparr> calls := (calls s)(p \<mapsto> (N, ph)) \<rparr>)"
    using freshD_srcs [OF f] by simp
next
  fix q M g U assume "calls (s\<lparr> calls := (calls s)(p \<mapsto> (N, ph)) \<rparr>) q = Some (M, Installing g U)"
  with n have "calls s q = Some (M, Installing g U)" by (simp split: if_splits)
  from freshD_alloc [OF f this]
  show "g < allocated (s\<lparr> calls := (calls s)(p \<mapsto> (N, ph)) \<rparr>)" by simp
next
  fix q M g U U' assume "calls (s\<lparr> calls := (calls s)(p \<mapsto> (N, ph)) \<rparr>) q = Some (M, Installing g U)"
  with n have "calls s q = Some (M, Installing g U)" by (simp split: if_splits)
  from freshD_new [OF f this]
  show "srcs (s\<lparr> calls := (calls s)(p \<mapsto> (N, ph)) \<rparr>) U' \<noteq> Some g" by simp
next
  fix q q' M M' g U U'
  assume "calls (s\<lparr> calls := (calls s)(p \<mapsto> (N, ph)) \<rparr>) q = Some (M, Installing g U)"
    "calls (s\<lparr> calls := (calls s)(p \<mapsto> (N, ph)) \<rparr>) q' = Some (M', Installing g U')"
  with n have "calls s q = Some (M, Installing g U)" "calls s q' = Some (M', Installing g U')"
    by (simp_all split: if_splits)
  from freshD_one [OF f this] show "q = q'" .
qed

lemma protoSrcs_fresh: "freshInv s \<Longrightarrow> freshInv (s\<lparr> protoSrcs := x \<rparr>)"
  by (simp add: freshInv_def)

lemma nameToURL_fresh: "freshInv s \<Longrightarrow> freshInv (s\<lparr> nameToURL := x \<rparr>)"
  by (simp add: freshInv_def)

lemma allocated_fresh: "freshInv s \<Longrightarrow> freshInv (s\<lparr> allocated := allocated s + 1 \<rparr>)"
  unfolding freshInv_def by (simp add: less_Suc_eq)

lemma built_fresh:
  assumes f: "freshInv s"
  shows "freshInv (s\<lparr> allocated := allocated s + 1,
                      calls := (calls s)(p \<mapsto> (N, Installing (allocated s) U)) \<rparr>)"
    (is "freshInv ?t")
proof (rule freshI)
  fix U' g assume "srcs ?t U' = Some g"
  then show "g < allocated ?t" using freshD_srcs [OF f, of U' g] by simp
next
  fix q M g U' assume "calls ?t q = Some (M, Installing g U')"
  then show "g < allocated ?t" using freshD_alloc [OF f, of q M g U']
    by (cases "q = p") simp_all
next
  fix q M g U' U'' assume "calls ?t q = Some (M, Installing g U')"
  then show "srcs ?t U'' \<noteq> Some g"
    using freshD_new [OF f, of q M g U' U''] freshD_srcs [OF f, of U'' g]
    by (cases "q = p") auto
next
  fix q q' M M' g U' U''
  assume "calls ?t q = Some (M, Installing g U')" "calls ?t q' = Some (M', Installing g U'')"
  then show "q = q'"
    using freshD_one [OF f, of q M g U' q' M' U''] freshD_alloc [OF f, of q M g U']
      freshD_alloc [OF f, of q' M' g U'']
    by (cases "q = p"; cases "q' = p") auto
qed


lemma install_new_fresh:
  assumes f: "freshInv s" and i: "coordinatorInv s" and c: "calls s p = Some (N, Installing g U)"
  shows "freshInv (doReturn N (Inr g) (s\<lparr> nameToURL := x, srcs := (srcs s)(U \<mapsto> g) \<rparr>))"
    (is "freshInv ?t")
proof -
  from invD_worker [OF i c] obtain rest where ps: "protoSrcs s N = Some (p # rest)" by auto
  have r: "calls ?t p = Some (N, Returned (Inr g))"
    using c ps by (simp add: doReturn_calls)
  have k: "calls s q = Some (M, Installing h V) \<and> q \<noteq> p"
    if "calls ?t q = Some (M, Installing h V)" for q M h V
  proof -
    from that r have "q \<noteq> p" by auto
    moreover from doReturn_installing [OF that] have "calls s q = Some (M, Installing h V)" by simp
    ultimately show ?thesis by simp
  qed
  show ?thesis
  proof (rule freshI)
    fix V h assume "srcs ?t V = Some h"
    then show "h < allocated ?t"
      using freshD_srcs [OF f, of V h] freshD_alloc [OF f c] by (cases "V = U") simp_all
  next
    fix q M h V assume "calls ?t q = Some (M, Installing h V)"
    from k [OF this] have "calls s q = Some (M, Installing h V)" by simp
    from freshD_alloc [OF f this] show "h < allocated ?t" by simp
  next
    fix q M h V V' assume a: "calls ?t q = Some (M, Installing h V)"
    from k [OF a] have q: "calls s q = Some (M, Installing h V)" "q \<noteq> p" by simp_all
    from freshD_one [OF f q(1), of p N U] c q(2) have "h \<noteq> g" by auto
    with freshD_new [OF f q(1), of V'] show "srcs ?t V' \<noteq> Some h" by simp
  next
    fix q q' M M' h V V'
    assume "calls ?t q = Some (M, Installing h V)" "calls ?t q' = Some (M', Installing h V')"
    from k [OF this(1)] k [OF this(2)] freshD_one [OF f] show "q = q'" by blast
  qed
qed

lemma fire_fresh:
  assumes f: "freshInv s" and i: "coordinatorInv s"
  shows "freshInv (fire s ev)"
proof (cases ev)
  case (Call p N)
  have "freshInv (s\<lparr> calls := (calls s)(p \<mapsto> (N, ph)) \<rparr>)" if "\<And>g U. ph \<noteq> Installing g U"
    for ph :: "'a phase"
    using setPhase_fresh [OF f that] .
  from this [of Spawned] this [of "Returned (Inr g)" for g] f Call
  show ?thesis by (simp split: option.splits)
next
  case (Attach p)
  have a: "freshInv (s\<lparr> protoSrcs := x, calls := (calls s)(p \<mapsto> (N, ph)) \<rparr>)"
    if "\<And>g U. ph \<noteq> Installing g U" for ph :: "'a phase" and x N
    using setPhase_fresh [OF protoSrcs_fresh [OF f, of x], of ph p N] that by simp
  from a [of Waiting] a [of Deducing] f Attach
  show ?thesis by (simp split: option.splits phase.splits prod.splits)
next
  case (Deduced p r)
  from setPhase_fresh [OF f, of Rechecking p] doReturn_fresh [OF f] f Deduced
  show ?thesis by (simp split: option.splits phase.splits prod.splits)
next
  case (Recheck p)
  have "freshInv (s\<lparr> panicked := True \<rparr>)" using f by (simp add: freshInv_def)
  with setPhase_fresh [OF f, of Building p] doReturn_fresh [OF f] f Recheck
  show ?thesis by (simp split: option.splits phase.splits prod.splits)
next
  case (Built p r)
  from doReturn_fresh [OF allocated_fresh [OF f]] built_fresh [OF f, of p] f Built
  show ?thesis by (simp split: option.splits phase.splits prod.splits sum.splits)
next
  case (Install p)
  show ?thesis
  proof (cases "\<exists>N g U. calls s p = Some (N, Installing g U)")
    case True
    then obtain N g U where c: "calls s p = Some (N, Installing g U)" by blast
    from Install c install_new_fresh [OF f i c, of "(nameToURL s)(N \<mapsto> U)"]
      doReturn_fresh [OF nameToURL_fresh [OF f, of "(nameToURL s)(N \<mapsto> U)"], of N]
    show ?thesis by (simp split: option.splits)
  next
    case False
    with Install f show ?thesis by (auto split: option.splits phase.splits prod.splits)
  qed
qed

lemma foldl_step_fresh:
  "coordinatorInv s \<Longrightarrow> freshInv s \<Longrightarrow> freshInv (foldl step s evs)"
proof (induction evs arbitrary: s)
  case Nil
  then show ?case by simp
next
  case (Cons ev evs)
  have "freshInv (step s ev)" using fire_fresh [OF Cons.prems(2,1), of ev] Cons.prems(2)
    by (simp add: step_def)
  from Cons.IH [OF step_inv [OF Cons.prems(1)] this] show ?case by simp
qed

lemma runCoordinator_fresh: "freshInv (runCoordinator evs)"
  unfolding runCoordinator_def by (rule foldl_step_fresh [OF inv_new fresh_new])

text \<open>What an install, a call and a second look return, and where the entries come from.\<close>

lemma install_found:
  assumes i: "coordinatorInv s" and f: "freshInv s" and c: "calls s p = Some (N, Installing g U)"
    and sa: "srcs s U = Some sa"
  shows "srcs (step s (Install p)) = srcs s
     \<and> nameToURL (step s (Install p)) = (nameToURL s)(N \<mapsto> U)
     \<and> calls (step s (Install p)) p = Some (N, Returned (Inr sa))
     \<and> sa \<noteq> g
     \<and> (\<forall>U'. srcs (step s (Install p)) U' \<noteq> Some g)
     \<and> (\<forall>q N'. calls (step s (Install p)) q \<noteq> Some (N', Returned (Inr g)))"
proof -
  from invD_worker [OF i c] obtain rest where "protoSrcs s N = Some (p # rest)" by auto
  with c sa invD_panicked [OF i]
  have 1: "srcs (step s (Install p)) = srcs s"
    "nameToURL (step s (Install p)) = (nameToURL s)(N \<mapsto> U)"
    "calls (step s (Install p)) p = Some (N, Returned (Inr sa))"
    by (simp_all add: step_def doReturn_calls)
  from freshD_new [OF f c, of U] sa have 2: "sa \<noteq> g" by auto
  from freshD_new [OF f c] 1(1) have 3: "\<forall>U'. srcs (step s (Install p)) U' \<noteq> Some g" by simp
  have 4: "calls (step s (Install p)) q \<noteq> Some (N', Returned (Inr g))" for q N'
  proof
    assume "calls (step s (Install p)) q = Some (N', Returned (Inr g))"
    from invD_returned [OF step_inv [OF i] this] 3 show False by auto
  qed
  from 1 2 3 4 show ?thesis by blast
qed

lemma install_fresh:
  assumes i: "coordinatorInv s" and c: "calls s p = Some (N, Installing g U)"
    and n: "srcs s U = None"
  shows "srcs (step s (Install p)) = (srcs s)(U \<mapsto> g)
     \<and> nameToURL (step s (Install p)) = (nameToURL s)(N \<mapsto> U)
     \<and> calls (step s (Install p)) p = Some (N, Returned (Inr g))"
proof -
  from invD_worker [OF i c] obtain rest where "protoSrcs s N = Some (p # rest)" by auto
  with c n invD_panicked [OF i] show ?thesis
    by (simp add: step_def doReturn_calls)
qed

lemma install_waiters:
  assumes i: "coordinatorInv s" and c: "calls s p = Some (N, Installing g U)"
    and ps: "protoSrcs s N = Some chans" and q: "q \<in> set chans"
  shows "calls (step s (Install p)) q
     = Some (N, Returned (Inr (case srcs s U of None \<Rightarrow> g | Some sa \<Rightarrow> sa)))"
proof -
  from invD_waiter [OF i ps q] obtain ph where "calls s q = Some (N, ph)" by blast
  with c ps q invD_panicked [OF i] show ?thesis
    by (simp add: step_def doReturn_calls split: option.splits)
qed

lemma call_found:
  assumes i: "coordinatorInv s" and c: "calls s p = None"
    and n: "nameToURL s N = Some U"
  shows "\<exists>g. srcs s U = Some g \<and> calls (step s (Call p N)) p = Some (N, Returned (Inr g))"
proof -
  from invD_url [OF i n] obtain g where "srcs s U = Some g" by blast
  with c n invD_panicked [OF i] show ?thesis by (simp add: step_def)
qed

lemma recheck_found:
  assumes i: "coordinatorInv s" and c: "calls s p = Some (N, Rechecking)"
    and n: "nameToURL s N = Some U"
  shows "\<exists>g. srcs s U = Some g \<and> calls (step s (Recheck p)) p = Some (N, Returned (Inr g))"
proof -
  from invD_url [OF i n] obtain g where g: "srcs s U = Some g" by blast
  from invD_worker [OF i c] obtain rest where "protoSrcs s N = Some (p # rest)" by auto
  with g c n invD_panicked [OF i] show ?thesis by (simp add: step_def doReturn_calls)
qed

lemma step_nameToURL_new:
  assumes "nameToURL (step s ev) N = Some U" and "nameToURL s N = None"
  shows "\<exists>w g. ev = Install w \<and> calls s w = Some (N, Installing g U)"
  using assms
  by (cases ev)
    (auto simp add: step_def split: if_splits option.splits phase.splits prod.splits sum.splits)

lemma step_srcs_new:
  assumes "srcs (step s ev) U = Some g" and "srcs s U = None"
  shows "\<exists>w N. ev = Install w \<and> calls s w = Some (N, Installing g U)"
  using assms
  by (cases ev)
    (auto simp add: step_def split: if_splits option.splits phase.splits prod.splits sum.splits)

lemma step_installing_new:
  assumes "calls (step s ev) p = Some (N, Installing g U)"
    and "calls s p \<noteq> Some (N, Installing g U)"
  shows "ev = Built p (Inr U) \<and> calls s p = Some (N, Building) \<and> g = allocated s"
  using assms
  by (cases ev)
    (auto simp add: step_def dest!: doReturn_installing
       split: if_splits option.splits phase.splits prod.splits sum.splits)

text \<open>The runs of the calls for the two names of one source, evaluated.\<close>

lemma bothChecked_state:
  "calls (runCoordinator bothChecked) 11 = Some (''github.com/x/y'', Building)"
  "allocated (runCoordinator bothChecked) = 0"
  "calls (step (runCoordinator bothChecked) (Built 11 (Inr ''https://github.com/x/y''))) 11
     = Some (''github.com/x/y'', Installing 0 ''https://github.com/x/y'')"
  by (simp_all add: bothChecked_def runCoordinator_def newSourceCoordinator_def step_def
        doReturn_def)

lemma bothBuilt_state:
  "srcs (runCoordinator bothBuilt) ''https://github.com/x/y'' = None"
  "nameToURL (runCoordinator bothBuilt) ''github.com/x/y'' = None"
  "calls (runCoordinator bothBuilt) 11
     = Some (''github.com/x/y'', Installing 0 ''https://github.com/x/y'')"
  "protoSrcs (runCoordinator bothBuilt) ''github.com/x/y'' = Some [11]"
  "allocated (runCoordinator bothBuilt) = 2"
  by (simp_all add: bothBuilt_def runCoordinator_def newSourceCoordinator_def step_def
        doReturn_def)

lemma bothBuilt_install:
  "srcs (step (runCoordinator bothBuilt) (Install 11)) ''https://github.com/x/y'' = Some 0"
  "nameToURL (step (runCoordinator bothBuilt) (Install 11)) ''github.com/x/y''
     = Some ''https://github.com/x/y''"
  by (simp_all add: bothBuilt_def runCoordinator_def newSourceCoordinator_def step_def
        doReturn_def)

lemma aliasing_more:
  "allocated (runCoordinator aliasingRun) = 2"
  "calls (runCoordinator (aliasingRun @ [Install 12])) 13 = None"
  "nameToURL (step (runCoordinator aliasingRun) (Install 12)) ''https://github.com/x/y''
     = Some ''https://github.com/x/y''"
  by (simp_all add: aliasingRun_def runCoordinator_def newSourceCoordinator_def step_def
        doReturn_def)

lemma lateAttach_state:
  "calls (runCoordinator lateAttach) 13 = Some (''github.com/x/y'', Rechecking)"
  "calls (runCoordinator lateAttach) 11 = Some (''github.com/x/y'', Returned (Inr 0))"
  "nameToURL (runCoordinator lateAttach) ''github.com/x/y'' = Some ''https://github.com/x/y''"
  "srcs (runCoordinator lateAttach) ''https://github.com/x/y'' = Some 0"
  by (simp_all add: lateAttach_def runCoordinator_def newSourceCoordinator_def step_def
        doReturn_def)

lemma aliasing_state:
  "srcs (runCoordinator aliasingRun) ''https://github.com/x/y'' = Some 0"
  "nameToURL (runCoordinator aliasingRun) ''github.com/x/y'' = Some ''https://github.com/x/y''"
  "nameToURL (runCoordinator aliasingRun) ''https://github.com/x/y'' = None"
  "calls (runCoordinator aliasingRun) 11 = Some (''github.com/x/y'', Returned (Inr 0))"
  "calls (runCoordinator aliasingRun) 12
     = Some (''https://github.com/x/y'', Installing 1 ''https://github.com/x/y'')"
  by (simp_all add: aliasingRun_def runCoordinator_def newSourceCoordinator_def step_def
        doReturn_def)


lemma aliasing_done:
  "calls (runCoordinator (aliasingRun @ [Install 12])) 12
     = Some (''https://github.com/x/y'', Returned (Inr 0))"
  "nameToURL (runCoordinator (aliasingRun @ [Install 12])) ''https://github.com/x/y''
     = Some ''https://github.com/x/y''"
  by (simp_all add: aliasingRun_def runCoordinator_def newSourceCoordinator_def step_def
        doReturn_def)

section \<open>The claim about the coordinator\<close>

text \<open>
  Claim C7. In every state that the coordinator reaches by any interleaving of the steps of
  any number of calls (\<open>runCoordinator evs\<close> for a list of events):

  \<^item> a name that has a URL has a gateway at that URL; a call for the name \<open>N\<close> that has returned
    a gateway has returned the one stored at \<open>srcs[nameToURL[N]]\<close>, so two calls whose names
    have the same URL have returned the same instance;

  \<^item> an entry of \<open>srcs\<close> or of \<open>nameToURL\<close>, once made, and a result, once returned, stay as they
    are in every later state, so no URL ever gets a second gateway;

  \<^item> the install of a worker for the name \<open>N\<close> whose gateway \<open>g\<close> has resolved to the URL \<open>U\<close>
    maps \<open>N\<close> to \<open>U\<close> and changes no other name; if it finds a gateway at \<open>U\<close> it leaves \<open>srcs\<close>
    as it is and returns the gateway it found, which is another instance than \<open>g\<close>, and \<open>g\<close> is
    then stored nowhere and returned to no call; if it finds none it stores \<open>g\<close> at \<open>U\<close>,
    changes no other entry of \<open>srcs\<close>, and returns \<open>g\<close>; and every call waiting on the worker
    gets the same gateway as the worker;

  \<^item> a new call for a name that has a URL, and the second look of a worker whose name has a
    URL, return the gateway stored at that URL;

  \<^item> a name gets its URL, and a URL its gateway, only by the install of a worker for that
    name whose gateway resolved to that URL, and a worker comes to install the gateway \<open>g\<close> for
    the URL \<open>U\<close> only by constructing \<open>g\<close>, newly allocated, with \<open>sourceURL\<close> returning \<open>U\<close>;
    a gateway being installed is stored nowhere yet and is installed by that one call;

  \<^item> and the \<open>panic\<close> of the second look is never reached.
\<close>

theorem one_gateway_per_url:
  "(nameToURL (runCoordinator evs) N = Some U \<longrightarrow> srcs (runCoordinator evs) U \<noteq> None)
   \<and> (calls (runCoordinator evs) p = Some (N, Returned (Inr g)) \<longrightarrow>
        (\<exists>U. nameToURL (runCoordinator evs) N = Some U \<and> srcs (runCoordinator evs) U = Some g))
   \<and> (calls (runCoordinator evs) p = Some (N, Returned (Inr g))
        \<and> calls (runCoordinator evs) q = Some (N', Returned (Inr g'))
        \<and> nameToURL (runCoordinator evs) N = nameToURL (runCoordinator evs) N' \<longrightarrow> g = g')
   \<and> (srcs (runCoordinator evs) U = Some g \<longrightarrow> srcs (runCoordinator (evs @ evs')) U = Some g)
   \<and> (nameToURL (runCoordinator evs) N = Some U \<longrightarrow>
        nameToURL (runCoordinator (evs @ evs')) N = Some U)
   \<and> (calls (runCoordinator evs) p = Some (N, Returned r) \<longrightarrow>
        calls (runCoordinator (evs @ evs')) p = Some (N, Returned r))
   \<and> (calls (runCoordinator evs) p = Some (N, Installing g U)
        \<and> srcs (runCoordinator evs) U = Some sa \<longrightarrow>
        srcs (step (runCoordinator evs) (Install p)) = srcs (runCoordinator evs)
        \<and> nameToURL (step (runCoordinator evs) (Install p))
            = (nameToURL (runCoordinator evs))(N \<mapsto> U)
        \<and> calls (step (runCoordinator evs) (Install p)) p = Some (N, Returned (Inr sa))
        \<and> sa \<noteq> g
        \<and> (\<forall>U'. srcs (step (runCoordinator evs) (Install p)) U' \<noteq> Some g)
        \<and> (\<forall>q N'. calls (step (runCoordinator evs) (Install p)) q
              \<noteq> Some (N', Returned (Inr g))))
   \<and> (calls (runCoordinator evs) p = Some (N, Installing g U)
        \<and> srcs (runCoordinator evs) U = None \<longrightarrow>
        srcs (step (runCoordinator evs) (Install p)) = (srcs (runCoordinator evs))(U \<mapsto> g)
        \<and> nameToURL (step (runCoordinator evs) (Install p))
            = (nameToURL (runCoordinator evs))(N \<mapsto> U)
        \<and> calls (step (runCoordinator evs) (Install p)) p = Some (N, Returned (Inr g)))
   \<and> (calls (runCoordinator evs) p = Some (N, Installing g U)
        \<and> protoSrcs (runCoordinator evs) N = Some chans \<and> k \<in> set chans \<longrightarrow>
        calls (step (runCoordinator evs) (Install p)) k
          = Some (N, Returned (Inr (case srcs (runCoordinator evs) U of
                                      None \<Rightarrow> g | Some sa \<Rightarrow> sa))))
   \<and> (calls (runCoordinator evs) p = None \<and> nameToURL (runCoordinator evs) N = Some U \<longrightarrow>
        (\<exists>g. srcs (runCoordinator evs) U = Some g
            \<and> calls (step (runCoordinator evs) (Call p N)) p = Some (N, Returned (Inr g))))
   \<and> (calls (runCoordinator evs) p = Some (N, Rechecking)
        \<and> nameToURL (runCoordinator evs) N = Some U \<longrightarrow>
        (\<exists>g. srcs (runCoordinator evs) U = Some g
            \<and> calls (step (runCoordinator evs) (Recheck p)) p = Some (N, Returned (Inr g))))
   \<and> (nameToURL (step (runCoordinator evs) e) N = Some U
        \<and> nameToURL (runCoordinator evs) N = None \<longrightarrow>
        (\<exists>w g. e = Install w \<and> calls (runCoordinator evs) w = Some (N, Installing g U)))
   \<and> (srcs (step (runCoordinator evs) e) U = Some g \<and> srcs (runCoordinator evs) U = None \<longrightarrow>
        (\<exists>w N. e = Install w \<and> calls (runCoordinator evs) w = Some (N, Installing g U)))
   \<and> (calls (step (runCoordinator evs) e) p = Some (N, Installing g U)
        \<and> calls (runCoordinator evs) p \<noteq> Some (N, Installing g U) \<longrightarrow>
        e = Built p (Inr U) \<and> calls (runCoordinator evs) p = Some (N, Building)
        \<and> g = allocated (runCoordinator evs))
   \<and> (calls (runCoordinator evs) p = Some (N, Installing g U) \<longrightarrow>
        g < allocated (runCoordinator evs)
        \<and> (\<forall>U'. srcs (runCoordinator evs) U' \<noteq> Some g)
        \<and> (\<forall>q N' U'. calls (runCoordinator evs) q = Some (N', Installing g U') \<longrightarrow> q = p))
   \<and> \<not> panicked (runCoordinator evs)"
proof -
  let ?s = "runCoordinator evs"
  have i: "coordinatorInv ?s" by (rule runCoordinator_inv)
  have f: "freshInv ?s" by (rule runCoordinator_fresh)
  have e: "runCoordinator (evs @ evs') = foldl step ?s evs'"
    by (simp add: runCoordinator_def)
  have 1: "nameToURL ?s N = Some U \<longrightarrow> srcs ?s U \<noteq> None"
    using invD_url [OF i, of N U] by auto
  have 2: "\<exists>U. nameToURL ?s N = Some U \<and> srcs ?s U = Some g"
    if "calls ?s p = Some (N, Returned (Inr g))" for p N g
    using invD_returned [OF i that] .
  have 3: "g = g'"
    if a: "calls ?s p = Some (N, Returned (Inr g))" "calls ?s q = Some (N', Returned (Inr g'))"
      "nameToURL ?s N = nameToURL ?s N'"
    using 2 [OF a(1)] 2 [OF a(2)] a(3) by auto
  note 4 = foldl_step_stable [OF i, of U g evs' N p r, folded e]
  note 7 = install_found [OF i f, of p N g U sa]
  note 8 = install_fresh [OF i, of p N g U]
  note 9 = install_waiters [OF i, of p N g U chans k]
  note 10 = call_found [OF i, of p N U]
  note 11 = recheck_found [OF i, of p N U]
  note 12 = step_nameToURL_new [of ?s e N U]
  note 13 = step_srcs_new [of ?s e U g]
  note 14 = step_installing_new [of ?s e p N g U]
  have 15: "g < allocated ?s \<and> (\<forall>U'. srcs ?s U' \<noteq> Some g)
      \<and> (\<forall>q N' U'. calls ?s q = Some (N', Installing g U') \<longrightarrow> q = p)"
    if c: "calls ?s p = Some (N, Installing g U)"
    using freshD_alloc [OF f c] freshD_new [OF f c] freshD_one [OF f _ c] by blast
  have a: "(nameToURL ?s N = Some U \<longrightarrow> srcs ?s U \<noteq> None)
     \<and> (calls ?s p = Some (N, Returned (Inr g)) \<longrightarrow>
          (\<exists>U. nameToURL ?s N = Some U \<and> srcs ?s U = Some g))
     \<and> (calls ?s p = Some (N, Returned (Inr g)) \<and> calls ?s q = Some (N', Returned (Inr g'))
          \<and> nameToURL ?s N = nameToURL ?s N' \<longrightarrow> g = g')
     \<and> (srcs ?s U = Some g \<longrightarrow> srcs (runCoordinator (evs @ evs')) U = Some g)
     \<and> (nameToURL ?s N = Some U \<longrightarrow> nameToURL (runCoordinator (evs @ evs')) N = Some U)
     \<and> (calls ?s p = Some (N, Returned r) \<longrightarrow>
          calls (runCoordinator (evs @ evs')) p = Some (N, Returned r))"
    using 1 2 [of p N g] 3 4 by blast
  from 15 have 15: "calls ?s p = Some (N, Installing g U) \<longrightarrow>
        g < allocated ?s \<and> (\<forall>U'. srcs ?s U' \<noteq> Some g)
        \<and> (\<forall>q N' U'. calls ?s q = Some (N', Installing g U') \<longrightarrow> q = p)" by blast
  have 7: "calls ?s p = Some (N, Installing g U) \<and> srcs ?s U = Some sa \<longrightarrow>
        srcs (step ?s (Install p)) = srcs ?s
        \<and> nameToURL (step ?s (Install p)) = (nameToURL ?s)(N \<mapsto> U)
        \<and> calls (step ?s (Install p)) p = Some (N, Returned (Inr sa))
        \<and> sa \<noteq> g
        \<and> (\<forall>U'. srcs (step ?s (Install p)) U' \<noteq> Some g)
        \<and> (\<forall>q N'. calls (step ?s (Install p)) q \<noteq> Some (N', Returned (Inr g)))"
    using 7 by blast
  have 8: "calls ?s p = Some (N, Installing g U) \<and> srcs ?s U = None \<longrightarrow>
        srcs (step ?s (Install p)) = (srcs ?s)(U \<mapsto> g)
        \<and> nameToURL (step ?s (Install p)) = (nameToURL ?s)(N \<mapsto> U)
        \<and> calls (step ?s (Install p)) p = Some (N, Returned (Inr g))"
    using 8 by blast
  have 9: "calls ?s p = Some (N, Installing g U)
        \<and> protoSrcs ?s N = Some chans \<and> k \<in> set chans \<longrightarrow>
        calls (step ?s (Install p)) k
          = Some (N, Returned (Inr (case srcs ?s U of None \<Rightarrow> g | Some sa \<Rightarrow> sa)))"
    using 9 by blast
  have 10: "calls ?s p = None \<and> nameToURL ?s N = Some U \<longrightarrow>
        (\<exists>g. srcs ?s U = Some g \<and> calls (step ?s (Call p N)) p = Some (N, Returned (Inr g)))"
    using 10 by blast
  have 11: "calls ?s p = Some (N, Rechecking) \<and> nameToURL ?s N = Some U \<longrightarrow>
        (\<exists>g. srcs ?s U = Some g \<and> calls (step ?s (Recheck p)) p = Some (N, Returned (Inr g)))"
    using 11 by blast
  have 12: "nameToURL (step ?s e) N = Some U \<and> nameToURL ?s N = None \<longrightarrow>
        (\<exists>w g. e = Install w \<and> calls ?s w = Some (N, Installing g U))"
    using 12 by blast
  have 13: "srcs (step ?s e) U = Some g \<and> srcs ?s U = None \<longrightarrow>
        (\<exists>w N. e = Install w \<and> calls ?s w = Some (N, Installing g U))"
    using 13 by blast
  have 14: "calls (step ?s e) p = Some (N, Installing g U)
        \<and> calls ?s p \<noteq> Some (N, Installing g U) \<longrightarrow>
        e = Built p (Inr U) \<and> calls ?s p = Some (N, Building) \<and> g = allocated ?s"
    using 14 by blast
  have b: "\<not> panicked ?s" by (rule invD_panicked [OF i])
  show ?thesis
    by (rule conjI a [THEN conjunct1] a [THEN conjunct2, THEN conjunct1]
          a [THEN conjunct2, THEN conjunct2, THEN conjunct1]
          a [THEN conjunct2, THEN conjunct2, THEN conjunct2, THEN conjunct1]
          a [THEN conjunct2, THEN conjunct2, THEN conjunct2, THEN conjunct2, THEN conjunct1]
          a [THEN conjunct2, THEN conjunct2, THEN conjunct2, THEN conjunct2, THEN conjunct2]
          7 8 9 10 11 12 13 14 15 b)+
qed

theorem one_gateway_per_url_witness:
  "nameToURL (runCoordinator aliasingRun) ''github.com/x/y'' = Some ''https://github.com/x/y''
   \<and> srcs (runCoordinator aliasingRun) ''https://github.com/x/y'' = Some 0
   \<and> calls (runCoordinator aliasingRun) 11 = Some (''github.com/x/y'', Returned (Inr 0))
   \<and> calls (runCoordinator aliasingRun) 12
        = Some (''https://github.com/x/y'', Installing 1 ''https://github.com/x/y'')
   \<and> srcs (step (runCoordinator aliasingRun) (Install 12)) = srcs (runCoordinator aliasingRun)
   \<and> nameToURL (step (runCoordinator aliasingRun) (Install 12)) ''https://github.com/x/y''
        = Some ''https://github.com/x/y''
   \<and> calls (step (runCoordinator aliasingRun) (Install 12)) 12
        = Some (''https://github.com/x/y'', Returned (Inr 0))
   \<and> calls (step (runCoordinator aliasingRun) (Install 12)) 11
        \<noteq> Some (''github.com/x/y'', Returned (Inr 1))
   \<and> allocated (runCoordinator aliasingRun) = 2
   \<and> srcs (runCoordinator (aliasingRun @ [Install 12])) ''https://github.com/x/y'' = Some 0
   \<and> nameToURL (runCoordinator (aliasingRun @ [Install 12])) ''github.com/x/y''
        = Some ''https://github.com/x/y''
   \<and> nameToURL (runCoordinator (aliasingRun @ [Install 12])) ''https://github.com/x/y''
        = Some ''https://github.com/x/y''
   \<and> calls (runCoordinator (aliasingRun @ [Install 12])) 11
        = Some (''github.com/x/y'', Returned (Inr 0))
   \<and> calls (runCoordinator (aliasingRun @ [Install 12])) 12
        = Some (''https://github.com/x/y'', Returned (Inr 0))
   \<and> calls (runCoordinator (aliasingRun @ [Install 12])) 13 = None
   \<and> calls (step (runCoordinator (aliasingRun @ [Install 12])) (Call 13 ''github.com/x/y'')) 13
        = Some (''github.com/x/y'', Returned (Inr 0))
   \<and> calls (runCoordinator bothChecked) 11 = Some (''github.com/x/y'', Building)
   \<and> allocated (runCoordinator bothChecked) = 0
   \<and> calls (step (runCoordinator bothChecked) (Built 11 (Inr ''https://github.com/x/y''))) 11
        = Some (''github.com/x/y'', Installing 0 ''https://github.com/x/y'')
   \<and> srcs (runCoordinator bothBuilt) ''https://github.com/x/y'' = None
   \<and> nameToURL (runCoordinator bothBuilt) ''github.com/x/y'' = None
   \<and> calls (runCoordinator bothBuilt) 11
        = Some (''github.com/x/y'', Installing 0 ''https://github.com/x/y'')
   \<and> protoSrcs (runCoordinator bothBuilt) ''github.com/x/y'' = Some [11]
   \<and> srcs (step (runCoordinator bothBuilt) (Install 11))
        = (srcs (runCoordinator bothBuilt))(''https://github.com/x/y'' \<mapsto> 0)
   \<and> nameToURL (step (runCoordinator bothBuilt) (Install 11))
        = (nameToURL (runCoordinator bothBuilt))(''github.com/x/y'' \<mapsto> ''https://github.com/x/y'')
   \<and> calls (step (runCoordinator bothBuilt) (Install 11)) 11
        = Some (''github.com/x/y'', Returned (Inr 0))
   \<and> calls (runCoordinator lateAttach) 13 = Some (''github.com/x/y'', Rechecking)
   \<and> nameToURL (runCoordinator lateAttach) ''github.com/x/y'' = Some ''https://github.com/x/y''
   \<and> srcs (runCoordinator lateAttach) ''https://github.com/x/y'' = Some 0
   \<and> calls (step (runCoordinator lateAttach) (Recheck 13)) 13
        = Some (''github.com/x/y'', Returned (Inr 0))
   \<and> \<not> panicked (runCoordinator aliasingRun)"
proof -
  note A = one_gateway_per_url [where evs = aliasingRun and N = "''github.com/x/y''"
      and U = "''https://github.com/x/y''" and p = 11 and g = 0 and r = "Inr 0"
      and evs' = "[Install 12]"]
  note B = one_gateway_per_url [where evs = aliasingRun and N = "''https://github.com/x/y''"
      and U = "''https://github.com/x/y''" and p = 12 and g = 1 and sa = 0]
  note C = one_gateway_per_url [where evs = "aliasingRun @ [Install 12]"
      and N = "''github.com/x/y''" and U = "''https://github.com/x/y''" and p = 13]
  note D = one_gateway_per_url [where evs = bothChecked and N = "''github.com/x/y''"
      and U = "''https://github.com/x/y''" and p = 11 and g = 0
      and e = "Built 11 (Inr ''https://github.com/x/y'')"]
  note E = one_gateway_per_url [where evs = bothBuilt and N = "''github.com/x/y''"
      and U = "''https://github.com/x/y''" and p = 11 and g = 0 and e = "Install 11"
      and chans = "[11]" and k = 11]
  note F = one_gateway_per_url [where evs = lateAttach and N = "''github.com/x/y''"
      and U = "''https://github.com/x/y''" and p = 13]
  note a1 = A [THEN conjunct2, THEN conjunct2, THEN conjunct2, THEN conjunct1, rule_format, OF aliasing_state(1)]
  note a2 = A [THEN conjunct2, THEN conjunct2, THEN conjunct2, THEN conjunct2, THEN conjunct1, rule_format, OF aliasing_state(2)]
  note a3 = A [THEN conjunct2, THEN conjunct2, THEN conjunct2, THEN conjunct2, THEN conjunct2, THEN conjunct1, rule_format, OF aliasing_state(4)]
  note a4 = A [THEN conjunct2, THEN conjunct2, THEN conjunct2, THEN conjunct2, THEN conjunct2, THEN conjunct2, THEN conjunct2, THEN conjunct2, THEN conjunct2, THEN conjunct2, THEN conjunct2, THEN conjunct2, THEN conjunct2, THEN conjunct2, THEN conjunct2]
  note b = B [THEN conjunct2, THEN conjunct2, THEN conjunct2, THEN conjunct2, THEN conjunct2, THEN conjunct2, THEN conjunct1, rule_format, OF conjI [OF aliasing_state(5) aliasing_state(1)]]
  note c = C [THEN conjunct2, THEN conjunct2, THEN conjunct2, THEN conjunct2, THEN conjunct2, THEN conjunct2, THEN conjunct2, THEN conjunct2, THEN conjunct2, THEN conjunct1, rule_format, OF conjI [OF aliasing_more(2) a2]]
  note d = D [THEN conjunct2, THEN conjunct2, THEN conjunct2, THEN conjunct2, THEN conjunct2, THEN conjunct2, THEN conjunct2, THEN conjunct2, THEN conjunct2, THEN conjunct2, THEN conjunct2, THEN conjunct2, THEN conjunct2, THEN conjunct1, rule_format, OF conjI [OF bothChecked_state(3)]]
  note e = E [THEN conjunct2, THEN conjunct2, THEN conjunct2, THEN conjunct2, THEN conjunct2, THEN conjunct2, THEN conjunct2, THEN conjunct1, rule_format, OF conjI [OF bothBuilt_state(3) bothBuilt_state(1)]]
  note f = F [THEN conjunct2, THEN conjunct2, THEN conjunct2, THEN conjunct2, THEN conjunct2, THEN conjunct2, THEN conjunct2, THEN conjunct2, THEN conjunct2, THEN conjunct2, THEN conjunct1, rule_format, OF conjI [OF lateAttach_state(1) lateAttach_state(3)]]
  have c': "calls (step (runCoordinator (aliasingRun @ [Install 12])) (Call 13 ''github.com/x/y'')) 13
          = Some (''github.com/x/y'', Returned (Inr 0))"
    using c a1 by auto
  have f': "calls (step (runCoordinator lateAttach) (Recheck 13)) 13
          = Some (''github.com/x/y'', Returned (Inr 0))"
    using f lateAttach_state(4) by auto
  have d': "calls (runCoordinator bothChecked) 11 = Some (''github.com/x/y'', Building)
      \<and> 0 = allocated (runCoordinator bothChecked)"
    using d bothChecked_state(1) by simp
  have b': "calls (step (runCoordinator aliasingRun) (Install 12)) 11
        \<noteq> Some (''github.com/x/y'', Returned (Inr 1))"
    using b by blast
  show ?thesis
    apply (intro conjI)
    apply (rule aliasing_state aliasing_done aliasing_more bothChecked_state bothBuilt_state
          lateAttach_state a1 a2 a3 a4 b [THEN conjunct1]
          b [THEN conjunct2, THEN conjunct2, THEN conjunct1] b' c' f'
          e [THEN conjunct1] e [THEN conjunct2, THEN conjunct1] e [THEN conjunct2, THEN conjunct2]
          d' [THEN conjunct1] d' [THEN conjunct2, symmetric])+
    done
qed
end
